theory Spec2Isabelle
  imports Main "HOL-Library.Word" "HOL-Library.Multiset"
begin

text \<open>
  A call-graph extractor for Go sources. Its stages, from a list of parsed files on: the
  declaration index (known names, signature and definition per name), the edge
  extractors (lexical, or through a gopls session), the assembler, and the SQLite store.
  Directory walking, parsing and printing of syntax, the HTTP front end, the database
  engine and the language server are outside the program; the engine and the server
  appear as parameters that say how they answer. Diagnostics written with \<open>log.Printf\<close>
  are left out.
\<close>

section \<open>Shared data model\<close>

text \<open>
  A Go slice is either \<open>nil\<close> or a (possibly empty) sequence. The difference is visible to
  the program (\<open>callees == nil\<close>) and to the JSON encoder, so it is kept in the model.
\<close>

datatype 'a slice = NilSlice | Slice "'a list"

fun elems :: "'a slice \<Rightarrow> 'a list" where
  "elems NilSlice = []"
| "elems (Slice xs) = xs"

text \<open>\<open>append(s, x)\<close> of Go: the result is never \<open>nil\<close>.\<close>

fun append_slice :: "'a slice \<Rightarrow> 'a \<Rightarrow> 'a slice" where
  "append_slice s x = Slice (elems s @ [x])"

text \<open>\<open>callgraph.FunctionNode\<close>.\<close>

record FunctionNode =
  Callees :: "string slice"
  Signature :: string
  Definition :: string

text \<open>
  A Go \<open>map[string]T\<close> is a partial function. Reading a missing key of a
  \<open>map[string][]string\<close> yields the zero value, the \<open>nil\<close> slice.
\<close>

type_synonym graph = "string \<rightharpoonup> FunctionNode"
type_synonym rawGraph = "string \<rightharpoonup> string slice"

definition index_raw :: "rawGraph \<Rightarrow> string \<Rightarrow> string slice" where
  "index_raw m k = (case m k of None \<Rightarrow> NilSlice | Some s \<Rightarrow> s)"

section \<open>External resolver session (pkg/lspclient)\<close>

text \<open>
  The resources a \<open>Client\<close> owns (the JSON-RPC connection, the stdio pipes, the gopls
  process, the cancellation function) are outside the program; what the program does to
  them is recorded as a trace of effects. \<open>session\<close> is the state of the connection and of
  the server behind it, as far as queries depend on it.
\<close>

datatype effect = ConnClose | StreamClose | ProcessKill | CtxCancel

record 's Client =
  rootDir :: string
  connected :: bool
  effects :: "effect list"
  session :: 's

text \<open>\<open>func (c *Client) Close()\<close>: the guard on \<open>connected\<close>, then the four releases in order.\<close>

definition Close :: "'s Client \<Rightarrow> 's Client" where
  "Close c =
     (if \<not> connected c then c
      else c\<lparr>connected := False,
             effects := effects c @ [ConnClose, StreamClose, ProcessKill, CtxCancel]\<rparr>)"

section \<open>Persistent graph store (pkg/persistence)\<close>

text \<open>
  The two relations of the schema, as row lists in storage order:
  \<open>functions(name PRIMARY KEY, signature, definition)\<close> and
  \<open>calls(caller, callee, PRIMARY KEY (caller, callee))\<close>.
\<close>

record DB =
  tbl_functions :: "(string \<times> string \<times> string) list"
  tbl_calls :: "(string \<times> string) list"

text \<open>
  \<open>db\<close> is the content of the database as the open transaction sees it, \<open>journal\<close> the
  snapshot taken when a transaction began (\<open>None\<close>: no transaction is open), and
  \<open>foreign_keys\<close> tells whether the connection enforces the two references of \<open>calls\<close>
  (the pragma of the schema script).
\<close>

record Store =
  db :: DB
  journal :: "DB option"
  foreign_keys :: bool

text \<open>The operations the program asks of the engine; each may fail for outside reasons.\<close>

datatype step =
    Begin | DeleteCalls | DeleteFunctions | PrepareInsertFn | PrepareInsertCall
  | InsertFn string | InsertCall string nat | Commit
  | QueryFunctions | ScanFunction nat | FunctionsRowsErr
  | QueryCalls | ScanCall nat | CallsRowsErr

datatype error =
    Fault step
  | TxBusy
  | PrimaryKeyViolation
  | ForeignKeyViolation
  | InsertFunctionError string error
  | InsertCallError string string error

text \<open>
  The engine as the program meets it: which operations fail on their own, and in which
  order a \<open>SELECT\<close> without \<open>ORDER BY\<close> delivers the rows of each relation.
\<close>

record engine =
  fails :: "step \<Rightarrow> bool"
  scan_functions :: "(string \<times> string \<times> string) list \<Rightarrow> (string \<times> string \<times> string) list"
  scan_calls :: "(string \<times> string) list \<Rightarrow> (string \<times> string) list"

text \<open>What a reader outside the transaction sees.\<close>

definition committed :: "Store \<Rightarrow> DB" where
  "committed s = (case journal s of None \<Rightarrow> db s | Some d \<Rightarrow> d)"

text \<open>
  Transactions. \<open>Begin\<close> takes the snapshot; a second writer is refused while one is open.
  \<open>Rollback\<close> puts the snapshot back. \<open>Commit\<close> keeps the written content, or fails and
  leaves the snapshot in place: the engine commits atomically.
\<close>

definition tx_Begin :: "engine \<Rightarrow> Store \<Rightarrow> error option \<times> Store" where
  "tx_Begin e s =
     (if fails e Begin then (Some (Fault Begin), s)
      else if journal s \<noteq> None then (Some TxBusy, s)
      else (None, s\<lparr>journal := Some (db s)\<rparr>))"

definition tx_Rollback :: "Store \<Rightarrow> Store" where
  "tx_Rollback s = s\<lparr>db := committed s, journal := None\<rparr>"

definition tx_Commit :: "engine \<Rightarrow> Store \<Rightarrow> error option \<times> Store" where
  "tx_Commit e s =
     (if fails e Commit then (Some (Fault Commit), tx_Rollback s)
      else (None, s\<lparr>journal := None\<rparr>))"

text \<open>\<open>DELETE FROM calls\<close>.\<close>

definition exec_delete_calls :: "engine \<Rightarrow> Store \<Rightarrow> error option \<times> Store" where
  "exec_delete_calls e s =
     (if fails e DeleteCalls then (Some (Fault DeleteCalls), s)
      else (None, s\<lparr>db := (db s)\<lparr>tbl_calls := []\<rparr>\<rparr>))"

text \<open>
  \<open>DELETE FROM functions\<close>; with the references enforced, \<open>ON DELETE CASCADE\<close> removes
  every edge row one of whose ends is a deleted function.
\<close>

definition exec_delete_functions :: "engine \<Rightarrow> Store \<Rightarrow> error option \<times> Store" where
  "exec_delete_functions e s =
     (if fails e DeleteFunctions then (Some (Fault DeleteFunctions), s)
      else (None, s\<lparr>db := \<lparr>tbl_functions = [],
             tbl_calls = (if foreign_keys s
                      then filter (\<lambda>(a, b). a \<notin> fst ` set (tbl_functions (db s))
                                          \<and> b \<notin> fst ` set (tbl_functions (db s))) (tbl_calls (db s))
                      else tbl_calls (db s))\<rparr>\<rparr>))"

text \<open>\<open>tx.Prepare\<close> changes no content.\<close>

definition tx_Prepare :: "engine \<Rightarrow> step \<Rightarrow> error option" where
  "tx_Prepare e p = (if fails e p then Some (Fault p) else None)"

text \<open>\<open>INSERT INTO functions(name, signature, definition) VALUES(?,?,?)\<close>.\<close>

definition exec_insertFn :: "engine \<Rightarrow> string \<Rightarrow> string \<Rightarrow> string \<Rightarrow> Store \<Rightarrow> error option \<times> Store" where
  "exec_insertFn e name sig def s =
     (if fails e (InsertFn name) then (Some (Fault (InsertFn name)), s)
      else if name \<in> fst ` set (tbl_functions (db s)) then (Some PrimaryKeyViolation, s)
      else (None, s\<lparr>db := (db s)\<lparr>tbl_functions := tbl_functions (db s) @ [(name, sig, def)]\<rparr>\<rparr>))"

text \<open>
  \<open>INSERT OR IGNORE INTO calls(caller, callee) VALUES(?,?)\<close>: a row that is already there
  is skipped; a row whose end is not a function fails when the references are enforced.
\<close>

definition exec_insertCall :: "engine \<Rightarrow> nat \<Rightarrow> string \<Rightarrow> string \<Rightarrow> Store \<Rightarrow> error option \<times> Store" where
  "exec_insertCall e i caller callee s =
     (if fails e (InsertCall caller i) then (Some (Fault (InsertCall caller i)), s)
      else if (caller, callee) \<in> set (tbl_calls (db s)) then (None, s)
      else if foreign_keys s
              \<and> (caller \<notin> fst ` set (tbl_functions (db s)) \<or> callee \<notin> fst ` set (tbl_functions (db s)))
           then (Some ForeignKeyViolation, s)
      else (None, s\<lparr>db := (db s)\<lparr>tbl_calls := tbl_calls (db s) @ [(caller, callee)]\<rparr>\<rparr>))"

text \<open>
  \<open>for k, v := range m\<close> visits every entry of the map once, in an order the language
  leaves open: the order is a parameter, a list of the keys.
\<close>

definition range_map :: "('k \<rightharpoonup> 'v) \<Rightarrow> 'k list \<Rightarrow> ('k \<times> 'v) list" where
  "range_map m ks = List.map_filter (\<lambda>k. map_option (Pair k) (m k)) ks"

definition iteration_order :: "('k \<rightharpoonup> 'v) \<Rightarrow> 'k list \<Rightarrow> bool" where
  "iteration_order m ks \<longleftrightarrow> distinct ks \<and> set ks = dom m"

text \<open>The first loop of \<open>SaveGraph\<close>: one function row per node.\<close>

fun insert_functions :: "engine \<Rightarrow> (string \<times> FunctionNode) list \<Rightarrow> Store \<Rightarrow> error option \<times> Store" where
  "insert_functions e [] s = (None, s)"
| "insert_functions e ((name, node) # es) s =
     (case exec_insertFn e name (Signature node) (Definition node) s of
        (Some err, s') \<Rightarrow> (Some (InsertFunctionError name err), tx_Rollback s')
      | (None, s') \<Rightarrow> insert_functions e es s')"

text \<open>The second loop: for each caller, one edge row per entry of its callee list.\<close>

fun insert_callees :: "engine \<Rightarrow> string \<Rightarrow> nat \<Rightarrow> string list \<Rightarrow> Store \<Rightarrow> error option \<times> Store" where
  "insert_callees e caller i [] s = (None, s)"
| "insert_callees e caller i (callee # cs) s =
     (case exec_insertCall e i caller callee s of
        (Some err, s') \<Rightarrow> (Some (InsertCallError caller callee err), tx_Rollback s')
      | (None, s') \<Rightarrow> insert_callees e caller (Suc i) cs s')"

fun insert_calls :: "engine \<Rightarrow> (string \<times> FunctionNode) list \<Rightarrow> Store \<Rightarrow> error option \<times> Store" where
  "insert_calls e [] s = (None, s)"
| "insert_calls e ((caller, node) # es) s =
     (case insert_callees e caller 0 (elems (Callees node)) s of
        (Some err, s') \<Rightarrow> (Some err, s')
      | (None, s') \<Rightarrow> insert_calls e es s')"

text \<open>
  \<open>func (s *Store) SaveGraph(graph)\<close>. \<open>ord1\<close> and \<open>ord2\<close> are the orders in which the two
  \<open>range\<close> loops visit the map.
\<close>

definition SaveGraph :: "engine \<Rightarrow> string list \<Rightarrow> string list \<Rightarrow> graph \<Rightarrow> Store \<Rightarrow> error option \<times> Store" where
  "SaveGraph e ord1 ord2 g s =
     (case tx_Begin e s of
        (Some err, s0) \<Rightarrow> (Some err, s0)
      | (None, s0) \<Rightarrow>
     (case exec_delete_calls e s0 of
        (Some err, s1) \<Rightarrow> (Some err, tx_Rollback s1)
      | (None, s1) \<Rightarrow>
     (case exec_delete_functions e s1 of
        (Some err, s2) \<Rightarrow> (Some err, tx_Rollback s2)
      | (None, s2) \<Rightarrow>
     (case tx_Prepare e PrepareInsertFn of
        Some err \<Rightarrow> (Some err, tx_Rollback s2)
      | None \<Rightarrow>
     (case tx_Prepare e PrepareInsertCall of
        Some err \<Rightarrow> (Some err, tx_Rollback s2)
      | None \<Rightarrow>
     (case insert_functions e (range_map g ord1) s2 of
        (Some err, s3) \<Rightarrow> (Some err, s3)
      | (None, s3) \<Rightarrow>
     (case insert_calls e (range_map g ord2) s3 of
        (Some err, s4) \<Rightarrow> (Some err, s4)
      | (None, s4) \<Rightarrow> tx_Commit e s4)))))))"

text \<open>The first loop of \<open>LoadGraph\<close>: every function row becomes a node with an empty,
  non-nil callee list.\<close>

fun load_functions :: "engine \<Rightarrow> nat \<Rightarrow> (string \<times> string \<times> string) list \<Rightarrow> graph \<Rightarrow> error + graph" where
  "load_functions e i [] g = Inr g"
| "load_functions e i ((name, sig, def) # rows) g =
     (if fails e (ScanFunction i) then Inl (Fault (ScanFunction i))
      else load_functions e (Suc i) rows
             (g(name \<mapsto> \<lparr>Callees = Slice [], Signature = sig, Definition = def\<rparr>)))"

text \<open>The second loop: an edge row is appended to its caller's list when the caller is a
  node, and skipped otherwise.\<close>

fun load_calls :: "engine \<Rightarrow> nat \<Rightarrow> (string \<times> string) list \<Rightarrow> graph \<Rightarrow> error + graph" where
  "load_calls e i [] g = Inr g"
| "load_calls e i ((caller, callee) # rows) g =
     (if fails e (ScanCall i) then Inl (Fault (ScanCall i))
      else load_calls e (Suc i) rows
             (case g caller of
                Some node \<Rightarrow> g(caller \<mapsto> node\<lparr>Callees := append_slice (Callees node) callee\<rparr>)
              | None \<Rightarrow> g))"

text \<open>\<open>func (s *Store) LoadGraph()\<close>; the queries run outside any transaction and read the
  committed content.\<close>

definition LoadGraph :: "engine \<Rightarrow> Store \<Rightarrow> error + graph" where
  "LoadGraph e s =
     (if fails e QueryFunctions then Inl (Fault QueryFunctions)
      else case load_functions e 0 (scan_functions e (tbl_functions (committed s))) Map.empty of
        Inl err \<Rightarrow> Inl err
      | Inr g0 \<Rightarrow>
          if fails e FunctionsRowsErr then Inl (Fault FunctionsRowsErr)
          else if fails e QueryCalls then Inl (Fault QueryCalls)
          else (case load_calls e 0 (scan_calls e (tbl_calls (committed s))) g0 of
                  Inl err \<Rightarrow> Inl err
                | Inr g1 \<Rightarrow>
                    if fails e CallsRowsErr then Inl (Fault CallsRowsErr) else Inr g1))"

text \<open>The operations a save asks of the engine when none of them fails.\<close>

definition save_steps :: "string list \<Rightarrow> string list \<Rightarrow> graph \<Rightarrow> step list" where
  "save_steps ord1 ord2 g =
     [Begin, DeleteCalls, DeleteFunctions, PrepareInsertFn, PrepareInsertCall]
     @ map (\<lambda>(name, node). InsertFn name) (range_map g ord1)
     @ concat (map (\<lambda>(caller, node). map (InsertCall caller) [0..<length (elems (Callees node))])
                   (range_map g ord2))
     @ [Commit]"

text \<open>A result set holds the rows of its relation, each once, in some order.\<close>

definition scans_permute :: "engine \<Rightarrow> bool" where
  "scans_permute e \<longleftrightarrow>
     (\<forall>rows. mset (scan_functions e rows) = mset rows)
     \<and> (\<forall>rows. mset (scan_calls e rows) = mset rows)"

text \<open>No operation fails for a reason outside the program.\<close>

definition no_faults :: "engine \<Rightarrow> bool" where
  "no_faults e \<longleftrightarrow> (\<forall>p. \<not> fails e p)"

text \<open>The closed-world invariant: every callee is a key.\<close>

definition closed_world :: "graph \<Rightarrow> bool" where
  "closed_world g \<longleftrightarrow> (\<forall>k n. g k = Some n \<longrightarrow> (\<forall>c \<in> set (elems (Callees n)). g c \<noteq> None))"

text \<open>Equal in content, up to the order (and repetition) of each callee list.\<close>

definition same_content :: "graph \<Rightarrow> graph \<Rightarrow> bool" where
  "same_content g g' \<longleftrightarrow>
     dom g' = dom g
     \<and> (\<forall>k n. g k = Some n \<longrightarrow>
          (\<exists>n'. g' k = Some n' \<and> Signature n' = Signature n \<and> Definition n' = Definition n
                \<and> set (elems (Callees n')) = set (elems (Callees n))))"

section \<open>Parsed source files (go/ast)\<close>

text \<open>
  The part of a syntax tree the extractor looks at: identifiers, selector expressions
  \<open>X.Sel\<close>, call expressions \<open>Fun(Args...)\<close>; every other kind of node is \<open>Other\<close> with
  its children in source order.
\<close>

datatype node =
    Ident string
  | SelectorExpr node string
  | CallExpr node "node list"
  | Other "node list"

text \<open>\<open>token.Position\<close> of a declared name, as \<open>fset.Position\<close> returns it.\<close>

record Position =
  Filename :: string
  Line :: int
  Column :: int

text \<open>
  \<open>*ast.FuncDecl\<close>. \<open>TypeText\<close> and \<open>DeclText\<close> are what \<open>printer.Fprint\<close> writes for
  \<open>fn.Type\<close> and for \<open>fn\<close>; \<open>Body\<close> is \<open>None\<close> for a declaration without a body.
\<close>

record FuncDecl =
  Name :: string
  NamePos :: Position
  TypeText :: string
  DeclText :: string
  Body :: "node option"

datatype decl = Func FuncDecl | GenDecl

record File =
  FilePath :: string
  Decls :: "decl list"

record funcDetail =
  detSignature :: string
  detDefinition :: string

section \<open>Declaration index (parseGoFiles, extractDetails)\<close>

text \<open>The loop of \<open>parseGoFiles\<close> over the declarations of the parsed files: the set of
  function names.\<close>

definition decl_names :: "string set \<Rightarrow> decl list \<Rightarrow> string set" where
  "decl_names = foldl (\<lambda>names d. case d of Func fn \<Rightarrow> insert (Name fn) names | GenDecl \<Rightarrow> names)"

definition declared_names :: "File list \<Rightarrow> string set" where
  "declared_names files = foldl (\<lambda>names f. decl_names names (Decls f)) {} files"

text \<open>\<open>extractDetails\<close> (and \<open>extractFuncDetails\<close> of the earlier program, the same loop):
  a later declaration of a name overwrites an earlier one.\<close>

definition decl_details :: "(string \<rightharpoonup> funcDetail) \<Rightarrow> decl list \<Rightarrow> (string \<rightharpoonup> funcDetail)" where
  "decl_details = foldl (\<lambda>out d. case d of
       Func fn \<Rightarrow> out(Name fn \<mapsto> \<lparr>detSignature = TypeText fn, detDefinition = DeclText fn\<rparr>)
     | GenDecl \<Rightarrow> out)"

definition extractDetails :: "File list \<Rightarrow> (string \<rightharpoonup> funcDetail)" where
  "extractDetails files = foldl (\<lambda>out f. decl_details out (Decls f)) Map.empty files"

section \<open>Graph assembler\<close>

text \<open>
  Step 6 of \<open>BuildCallGraph\<close>, and the merge loop of \<open>buildCallGraph\<close> in the earlier
  program: one node per entry of \<open>details\<close>, a \<open>nil\<close> callee list replaced by an empty one.
\<close>

definition assemble :: "(string \<rightharpoonup> funcDetail) \<Rightarrow> rawGraph \<Rightarrow> string list \<Rightarrow> graph" where
  "assemble details rawGraph ord =
     foldl (\<lambda>out (name, det).
              out(name \<mapsto> \<lparr>Callees = (case index_raw rawGraph name of
                                         NilSlice \<Rightarrow> Slice []
                                       | Slice cs \<Rightarrow> Slice cs),
                            Signature = detSignature det,
                            Definition = detDefinition det\<rparr>))
           Map.empty (range_map details ord)"

section \<open>Lexical call extractor (extractCallGraph)\<close>

text \<open>\<open>calleeSet[name] = struct{}{}\<close>: the set is kept as a list without repetition.\<close>

definition set_add :: "string \<Rightarrow> string list \<Rightarrow> string list" where
  "set_add x acc = (if x \<in> set acc then acc else acc @ [x])"

text \<open>The type switch on \<open>callExpr.Fun\<close>.\<close>

fun note_call :: "string set \<Rightarrow> node \<Rightarrow> string list \<Rightarrow> string list" where
  "note_call funcNames (Ident name) acc = (if name \<in> funcNames then set_add name acc else acc)"
| "note_call funcNames (SelectorExpr x sel) acc = (if sel \<in> funcNames then set_add sel acc else acc)"
| "note_call funcNames (CallExpr f args) acc = acc"
| "note_call funcNames (Other children) acc = acc"

text \<open>
  \<open>ast.Inspect(fn.Body, ...)\<close>: the callback sees every node, parents before children,
  and always asks to go on.
\<close>

fun Inspect :: "string set \<Rightarrow> node \<Rightarrow> string list \<Rightarrow> string list"
  and Inspect_list :: "string set \<Rightarrow> node list \<Rightarrow> string list \<Rightarrow> string list" where
  "Inspect funcNames (Ident name) acc = acc"
| "Inspect funcNames (SelectorExpr x sel) acc = Inspect funcNames x acc"
| "Inspect funcNames (CallExpr f args) acc =
     Inspect_list funcNames args (Inspect funcNames f (note_call funcNames f acc))"
| "Inspect funcNames (Other children) acc = Inspect_list funcNames children acc"
| "Inspect_list funcNames [] acc = acc"
| "Inspect_list funcNames (n # ns) acc = Inspect_list funcNames ns (Inspect funcNames n acc)"

text \<open>\<open>graph[caller] = append(graph[caller], callee)\<close> for each callee in turn.\<close>

definition add_edges :: "rawGraph \<Rightarrow> string \<Rightarrow> string list \<Rightarrow> rawGraph" where
  "add_edges graph caller callees =
     foldl (\<lambda>gr callee. gr(caller \<mapsto> append_slice (index_raw gr caller) callee)) graph callees"

text \<open>
  One declaration of \<open>extractCallGraph\<close>. \<open>rng fn\<close> is the order in which
  \<open>for callee := range calleeSet\<close> visits the set built for the declaration \<open>fn\<close>.
\<close>

definition lex_decl ::
  "string set \<Rightarrow> (FuncDecl \<Rightarrow> string list \<Rightarrow> string list) \<Rightarrow> rawGraph \<Rightarrow> decl \<Rightarrow> rawGraph" where
  "lex_decl funcNames rng graph d =
     (case d of
        Func fn \<Rightarrow>
          (case Body fn of
             Some body \<Rightarrow> add_edges graph (Name fn) (rng fn (Inspect funcNames body []))
           | None \<Rightarrow> graph)
      | GenDecl \<Rightarrow> graph)"

definition extractCallGraph ::
  "string set \<Rightarrow> (FuncDecl \<Rightarrow> string list \<Rightarrow> string list) \<Rightarrow> File list \<Rightarrow> rawGraph" where
  "extractCallGraph funcNames rng files =
     foldl (\<lambda>graph f. foldl (lex_decl funcNames rng) graph (Decls f)) Map.empty files"

text \<open>\<open>buildCallGraph\<close> of the earlier program, from the parsed files on.\<close>

definition buildCallGraph ::
  "(FuncDecl \<Rightarrow> string list \<Rightarrow> string list) \<Rightarrow> string list \<Rightarrow> File list \<Rightarrow> graph" where
  "buildCallGraph rng ord files =
     assemble (extractDetails files) (extractCallGraph (declared_names files) rng files) ord"

section \<open>Precision mode (extractGraphLSP, BuildCallGraph)\<close>

datatype rpc_error = RpcError string

text \<open>Of \<open>protocol.CallHierarchyItem\<close> and \<open>protocol.CallHierarchyOutgoingCall\<close>, the
  fields the program reads or passes on.\<close>

record CallHierarchyItem =
  itemName :: string
  itemURI :: string

record CallHierarchyOutgoingCall =
  To :: CallHierarchyItem

text \<open>
  The server end of the protocol: what \<open>conn.Call\<close> and \<open>conn.Notify\<close> answer, and how the
  session changes. \<open>startSession\<close> stands for \<open>startGopls\<close> followed by \<open>initialize\<close>.
\<close>

record 's rpc =
  startSession :: "string \<Rightarrow> rpc_error + 's"
  didOpen :: "'s \<Rightarrow> string \<Rightarrow> rpc_error option \<times> 's"
  prepareCallHierarchy :: "'s \<Rightarrow> string \<Rightarrow> 32 word \<Rightarrow> 32 word
                              \<Rightarrow> (rpc_error + CallHierarchyItem list) \<times> 's"
  outgoingCalls :: "'s \<Rightarrow> CallHierarchyItem \<Rightarrow> (rpc_error + CallHierarchyOutgoingCall list) \<times> 's"

text \<open>\<open>fileURI\<close>; paths are taken as absolute, so \<open>filepath.Abs\<close> changes nothing.\<close>

definition fileURI :: "string \<Rightarrow> string" where
  "fileURI path = ''file://'' @ path"

text \<open>\<open>New\<close>, and the three methods of \<open>Client\<close> the pipeline calls: each is one round
  trip (or one notification) on the connection.\<close>

definition New :: "'s rpc \<Rightarrow> string \<Rightarrow> rpc_error + 's Client" where
  "New r root =
     (case startSession r root of
        Inl err \<Rightarrow> Inl err
      | Inr s \<Rightarrow> Inr \<lparr>rootDir = root, connected = True, effects = [], session = s\<rparr>)"

definition OpenDocument :: "'s rpc \<Rightarrow> 's Client \<Rightarrow> string \<Rightarrow> rpc_error option \<times> 's Client" where
  "OpenDocument r c path =
     (case didOpen r (session c) (fileURI path) of (res, s') \<Rightarrow> (res, c\<lparr>session := s'\<rparr>))"

definition PrepareCallHierarchy ::
  "'s rpc \<Rightarrow> 's Client \<Rightarrow> string \<Rightarrow> 32 word \<Rightarrow> 32 word
     \<Rightarrow> (rpc_error + CallHierarchyItem list) \<times> 's Client" where
  "PrepareCallHierarchy r c path line character =
     (case prepareCallHierarchy r (session c) (fileURI path) line character of
        (res, s') \<Rightarrow> (res, c\<lparr>session := s'\<rparr>))"

definition OutgoingCalls ::
  "'s rpc \<Rightarrow> 's Client \<Rightarrow> CallHierarchyItem
     \<Rightarrow> (rpc_error + CallHierarchyOutgoingCall list) \<times> 's Client" where
  "OutgoingCalls r c item =
     (case outgoingCalls r (session c) item of (res, s') \<Rightarrow> (res, c\<lparr>session := s'\<rparr>))"

text \<open>The loop over \<open>outgoing\<close>, with its \<open>seen\<close> set.\<close>

fun record_outgoing ::
  "string set \<Rightarrow> string \<Rightarrow> CallHierarchyOutgoingCall list \<Rightarrow> string set \<Rightarrow> rawGraph \<Rightarrow> rawGraph" where
  "record_outgoing names caller [] seen graph = graph"
| "record_outgoing names caller (call # calls) seen graph =
     (let callee = itemName (To call) in
      if callee \<notin> names then record_outgoing names caller calls seen graph
      else if callee \<notin> seen
        then record_outgoing names caller calls (insert callee seen)
               (graph(caller \<mapsto> append_slice (index_raw graph caller) callee))
        else record_outgoing names caller calls seen graph)"

text \<open>One declaration of \<open>extractGraphLSP\<close>; every \<open>continue\<close> leaves the graph as it was.\<close>

definition lsp_decl ::
  "'s rpc \<Rightarrow> string set \<Rightarrow> 's Client \<times> rawGraph \<Rightarrow> decl \<Rightarrow> 's Client \<times> rawGraph" where
  "lsp_decl r names st d =
     (case st of (c, graph) \<Rightarrow>
      (case d of
         GenDecl \<Rightarrow> (c, graph)
       | Func fn \<Rightarrow>
          if Body fn = None then (c, graph)
          else
            let caller = Name fn;
                pos = NamePos fn;
                line = (word_of_int (Line pos - 1) :: 32 word);
                character = (word_of_int (Column pos - 1) :: 32 word)
            in (case PrepareCallHierarchy r c (Filename pos) line character of
                  (Inl err, c1) \<Rightarrow> (c1, graph)
                | (Inr [], c1) \<Rightarrow> (c1, graph)
                | (Inr (root # others), c1) \<Rightarrow>
                    (case OutgoingCalls r c1 root of
                       (Inl err, c2) \<Rightarrow> (c2, graph)
                     | (Inr outgoing, c2) \<Rightarrow>
                         (c2, record_outgoing names caller outgoing {} graph)))))"

definition extractGraphLSP ::
  "'s rpc \<Rightarrow> 's Client \<Rightarrow> File list \<Rightarrow> string set \<Rightarrow> (rpc_error + rawGraph) \<times> 's Client" where
  "extractGraphLSP r client files names =
     (case foldl (\<lambda>st f. foldl (lsp_decl r names) st (Decls f)) (client, Map.empty) files of
        (c, graph) \<Rightarrow> (Inr graph, c))"

text \<open>Step 4 of \<open>BuildCallGraph\<close>: the files are opened in turn, the first failure ends it.\<close>

fun open_files :: "'s rpc \<Rightarrow> 's Client \<Rightarrow> File list \<Rightarrow> rpc_error option \<times> 's Client" where
  "open_files r c [] = (None, c)"
| "open_files r c (f # fs) =
     (case OpenDocument r c (FilePath f) of
        (Some err, c') \<Rightarrow> (Some err, c')
      | (None, c') \<Rightarrow> open_files r c' fs)"

text \<open>
  \<open>BuildCallGraph\<close>, from the parsed files on. The second component is the client after
  the deferred \<open>Close\<close> (\<open>None\<close> when no session came up).
\<close>

definition BuildCallGraph ::
  "'s rpc \<Rightarrow> string \<Rightarrow> File list \<Rightarrow> string list \<Rightarrow> (rpc_error + graph) \<times> 's Client option" where
  "BuildCallGraph r root files ord =
     (let names = declared_names files;
          details = extractDetails files
      in case New r root of
           Inl err \<Rightarrow> (Inl err, None)
         | Inr client \<Rightarrow>
             (case open_files r client files of
                (Some err, c1) \<Rightarrow> (Inl err, Some (Close c1))
              | (None, c1) \<Rightarrow>
                  (case extractGraphLSP r c1 files names of
                     (Inl err, c2) \<Rightarrow> (Inl err, Some (Close c2))
                   | (Inr rawGraph, c2) \<Rightarrow>
                       (Inr (assemble details rawGraph ord), Some (Close c2)))))"

section \<open>Reference notions for the properties\<close>

text \<open>All declarations of the corpus in the order the loops visit them, and the function
  declarations among them.\<close>

definition all_decls :: "File list \<Rightarrow> decl list" where
  "all_decls files = concat (map Decls files)"

fun func_decls :: "decl list \<Rightarrow> FuncDecl list" where
  "func_decls [] = []"
| "func_decls (Func fn # ds) = fn # func_decls ds"
| "func_decls (GenDecl # ds) = func_decls ds"

text \<open>The names a body calls: the identifier, or the trailing selector name, in the
  function position of a call expression anywhere in the tree.\<close>

fun target :: "node \<Rightarrow> string set" where
  "target (Ident name) = {name}"
| "target (SelectorExpr x sel) = {sel}"
| "target (CallExpr f args) = {}"
| "target (Other children) = {}"

fun call_targets :: "node \<Rightarrow> string set"
  and call_targets_list :: "node list \<Rightarrow> string set" where
  "call_targets (Ident name) = {}"
| "call_targets (SelectorExpr x sel) = call_targets x"
| "call_targets (CallExpr f args) = target f \<union> call_targets f \<union> call_targets_list args"
| "call_targets (Other children) = call_targets_list children"
| "call_targets_list [] = {}"
| "call_targets_list (n # ns) = call_targets n \<union> call_targets_list ns"

text \<open>Ranging over a set visits each element once.\<close>

definition range_permutes :: "(FuncDecl \<Rightarrow> string list \<Rightarrow> string list) \<Rightarrow> bool" where
  "range_permutes rng \<longleftrightarrow> (\<forall>fn xs. mset (rng fn xs) = mset xs)"

text \<open>One such order: every set is visited last insertion first.\<close>

definition rev_range :: "FuncDecl \<Rightarrow> string list \<Rightarrow> string list" where
  "rev_range fn xs = rev xs"

text \<open>Every recorded callee is one of the given names.\<close>

definition raw_within :: "string set \<Rightarrow> rawGraph \<Rightarrow> bool" where
  "raw_within names graph \<longleftrightarrow> (\<forall>k s. graph k = Some s \<longrightarrow> set (elems s) \<subseteq> names)"

text \<open>The callee list a node gets from the raw graph.\<close>

definition node_callees :: "rawGraph \<Rightarrow> string \<Rightarrow> string slice" where
  "node_callees rawGraph name =
     (case index_raw rawGraph name of NilSlice \<Rightarrow> Slice [] | Slice cs \<Rightarrow> Slice cs)"



section \<open>Example values\<close>

text \<open>\<open>A\<close> calls \<open>B\<close>; \<open>B\<close> and \<open>C\<close> call nothing.\<close>

definition abc_graph :: graph where
  "abc_graph =
     [''A'' \<mapsto> \<lparr>Callees = Slice [''B''], Signature = ''func()'', Definition = ''func A() { B(); B(); X() }''\<rparr>,
      ''B'' \<mapsto> \<lparr>Callees = Slice [], Signature = ''func()'', Definition = ''func B() {}''\<rparr>,
      ''C'' \<mapsto> \<lparr>Callees = Slice [], Signature = ''func()'', Definition = ''func C() {}''\<rparr>]"

text \<open>A graph whose callee list repeats an edge, and has a \<open>nil\<close> list.\<close>

definition dup_graph :: graph where
  "dup_graph =
     [''A'' \<mapsto> \<lparr>Callees = Slice [''B'', ''B''], Signature = ''func()'', Definition = ''func A() { B(); B() }''\<rparr>,
      ''B'' \<mapsto> \<lparr>Callees = NilSlice, Signature = ''func()'', Definition = ''func B() {}''\<rparr>]"

text \<open>A store with earlier content, the references enforced.\<close>

definition old_store :: Store where
  "old_store = \<lparr>db = \<lparr>tbl_functions = [(''Z'', ''func()'', ''func Z() { Z() }'')],
                         tbl_calls = [(''Z'', ''Z'')]\<rparr>,
                 journal = None, foreign_keys = True\<rparr>"

text \<open>An engine that never fails and delivers function rows last row first; and one on
  which the insert of the first edge of \<open>A\<close> fails.\<close>

definition plain_engine :: engine where
  "plain_engine = \<lparr>fails = (\<lambda>p. False), scan_functions = rev, scan_calls = (\<lambda>rows. rows)\<rparr>"

definition edge_fault_engine :: engine where
  "edge_fault_engine =
     \<lparr>fails = (\<lambda>p. p = InsertCall ''A'' 0), scan_functions = rev, scan_calls = (\<lambda>rows. rows)\<rparr>"

text \<open>A declaration index and an edge source in which only \<open>A\<close> has edges.\<close>

definition abc_details :: "string \<rightharpoonup> funcDetail" where
  "abc_details =
     [''A'' \<mapsto> \<lparr>detSignature = ''func()'', detDefinition = ''func A() { B(); B(); X() }''\<rparr>,
      ''B'' \<mapsto> \<lparr>detSignature = ''func()'', detDefinition = ''func B() {}''\<rparr>,
      ''C'' \<mapsto> \<lparr>detSignature = ''func()'', detDefinition = ''func C() {}''\<rparr>]"

definition abc_raw :: rawGraph where
  "abc_raw = [''A'' \<mapsto> Slice [''B'']]"

text \<open>The body of \<open>func A() { B(); x.B(); X() }\<close>.\<close>

definition body_A :: node where
  "body_A = Other [CallExpr (Ident ''B'') [],
                   CallExpr (SelectorExpr (Ident ''x'') ''B'') [],
                   CallExpr (Ident ''X'') []]"

text \<open>
  A corpus of one file: \<open>A\<close> calls \<open>B\<close> twice and the unknown \<open>X\<close>; \<open>B\<close> calls nothing; \<open>C\<close> is
  declared without a body.
\<close>

definition fn_A :: FuncDecl where
  "fn_A = \<lparr>Name = ''A'', NamePos = \<lparr>Filename = ''a.go'', Line = 3, Column = 6\<rparr>,
           TypeText = ''func()'', DeclText = ''func A() { B(); x.B(); X() }'',
           Body = Some body_A\<rparr>"

definition fn_B :: FuncDecl where
  "fn_B = \<lparr>Name = ''B'', NamePos = \<lparr>Filename = ''a.go'', Line = 7, Column = 6\<rparr>,
           TypeText = ''func()'', DeclText = ''func B() {}'', Body = Some (Other [])\<rparr>"

definition fn_C :: FuncDecl where
  "fn_C = \<lparr>Name = ''C'', NamePos = \<lparr>Filename = ''a.go'', Line = 9, Column = 6\<rparr>,
           TypeText = ''func()'', DeclText = ''func C()'', Body = None\<rparr>"

definition file_a :: File where
  "file_a = \<lparr>FilePath = ''a.go'', Decls = [Func fn_A, GenDecl, Func fn_B, Func fn_C]\<rparr>"

text \<open>A connected client before its first query.\<close>

definition client0 :: "nat Client" where
  "client0 = \<lparr>rootDir = ''/w'', connected = True, effects = [], session = 0\<rparr>"

text \<open>
  A server that counts its requests. At line 3 (protocol line 2) it knows two items, of
  which the first calls \<open>B\<close>, \<open>Println\<close> and \<open>B\<close> again; at line 7 the query fails; elsewhere
  it finds nothing.
\<close>

definition demo_rpc :: "nat rpc" where
  "demo_rpc =
     \<lparr>startSession = (\<lambda>root. Inr 0),
      didOpen = (\<lambda>s uri. (None, s)),
      prepareCallHierarchy = (\<lambda>s uri line character.
         (if line = 2 then Inr [\<lparr>itemName = ''A'', itemURI = uri\<rparr>, \<lparr>itemName = ''B'', itemURI = uri\<rparr>]
          else if line = 6 then Inl (RpcError ''timeout'')
          else Inr [], Suc s)),
      outgoingCalls = (\<lambda>s item.
         (if itemName item = ''A''
          then Inr [\<lparr>To = \<lparr>itemName = ''B'', itemURI = itemURI item\<rparr>\<rparr>,
                    \<lparr>To = \<lparr>itemName = ''Println'', itemURI = ''file:///fmt/print.go''\<rparr>\<rparr>,
                    \<lparr>To = \<lparr>itemName = ''B'', itemURI = itemURI item\<rparr>\<rparr>]
          else Inl (RpcError ''no such item''), Suc s))\<rparr>"










section \<open>Properties of the resolver session\<close>

lemma Close_not_connected: "\<not> connected (Close c)"
  by (simp add: Close_def)

lemma Close_closed: "\<not> connected c \<Longrightarrow> Close c = c"
  by (simp add: Close_def)

lemma Close_funpow_closed: "\<not> connected c \<Longrightarrow> (Close ^^ n) c = c"
  by (induction n) (simp_all add: Close_closed)

text \<open>
  C7. Closing a session that is already closed does nothing: the client, including the
  trace of connection closes, pipe closes, process kills and cancellations, is unchanged,
  so no such effect is performed. This holds for the second and for every later call of
  \<open>Close\<close> after a first one.
\<close>

theorem Close_idempotent:
  "(\<not> connected c \<longrightarrow> Close c = c \<and> effects (Close c) = effects c)
   \<and> \<not> connected (Close c)
   \<and> (Close ^^ n) (Close c) = Close c"
  using Close_closed [of c] Close_not_connected [of c]
    Close_funpow_closed [OF Close_not_connected, of n c]
  by simp

theorem Close_idempotent_witness:
  "\<not> connected \<lparr>rootDir = ''/w'', connected = False, effects = [], session = ()\<rparr>
   \<and> Close \<lparr>rootDir = ''/w'', connected = False, effects = [], session = ()\<rparr>
       = \<lparr>rootDir = ''/w'', connected = False, effects = [], session = ()\<rparr>
   \<and> (Close ^^ 2) (Close \<lparr>rootDir = ''/w'', connected = True, effects = [], session = ()\<rparr>)
       = \<lparr>rootDir = ''/w'', connected = False,
          effects = [ConnClose, StreamClose, ProcessKill, CtxCancel], session = ()\<rparr>"
  using Close_idempotent [of "\<lparr>rootDir = ''/w'', connected = False, effects = [], session = ()\<rparr>" 0]
    Close_idempotent [of "\<lparr>rootDir = ''/w'', connected = True, effects = [], session = ()\<rparr>" 2]
  by (simp add: Close_def)

subsection \<open>Transactions\<close>

lemma tx_Rollback_open:
  "journal s = Some d \<Longrightarrow> tx_Rollback s = \<lparr>db = d, journal = None, foreign_keys = foreign_keys s\<rparr>"
  by (simp add: tx_Rollback_def committed_def)

lemma exec_insertFn_frame:
  "exec_insertFn e name sig def s = (r, s') \<Longrightarrow>
     journal s' = journal s \<and> foreign_keys s' = foreign_keys s"
  by (auto simp: exec_insertFn_def split: if_splits)

lemma exec_insertCall_frame:
  "exec_insertCall e i caller callee s = (r, s') \<Longrightarrow>
     journal s' = journal s \<and> foreign_keys s' = foreign_keys s"
  by (auto simp: exec_insertCall_def split: if_splits)

lemma insert_functions_frame:
  "journal s = Some d \<Longrightarrow> insert_functions e es s = (r, s') \<Longrightarrow>
     (r = None \<longrightarrow> journal s' = Some d \<and> foreign_keys s' = foreign_keys s)
     \<and> (r \<noteq> None \<longrightarrow> s' = \<lparr>db = d, journal = None, foreign_keys = foreign_keys s\<rparr>)"
proof (induction es arbitrary: s)
  case Nil
  then show ?case by simp
next
  case (Cons x es)
  obtain name node where x: "x = (name, node)" by (cases x)
  obtain r1 s1 where ex: "exec_insertFn e name (Signature node) (Definition node) s = (r1, s1)"
    by (cases "exec_insertFn e name (Signature node) (Definition node) s")
  from exec_insertFn_frame [OF ex] Cons.prems(1)
  have fr: "journal s1 = Some d" "foreign_keys s1 = foreign_keys s" by simp_all
  show ?case
  proof (cases r1)
    case None
    with Cons.prems(2) x ex have "insert_functions e es s1 = (r, s')" by simp
    from Cons.IH [OF fr(1) this] fr(2) show ?thesis by simp
  next
    case (Some err)
    with Cons.prems(2) x ex have "r = Some (InsertFunctionError name err)" "s' = tx_Rollback s1"
      by simp_all
    with tx_Rollback_open [OF fr(1)] fr(2) show ?thesis by simp
  qed
qed

lemma insert_callees_frame:
  "journal s = Some d \<Longrightarrow> insert_callees e caller i cs s = (r, s') \<Longrightarrow>
     (r = None \<longrightarrow> journal s' = Some d \<and> foreign_keys s' = foreign_keys s)
     \<and> (r \<noteq> None \<longrightarrow> s' = \<lparr>db = d, journal = None, foreign_keys = foreign_keys s\<rparr>)"
proof (induction cs arbitrary: s i)
  case Nil
  then show ?case by simp
next
  case (Cons callee cs)
  obtain r1 s1 where ex: "exec_insertCall e i caller callee s = (r1, s1)"
    by (cases "exec_insertCall e i caller callee s")
  from exec_insertCall_frame [OF ex] Cons.prems(1)
  have fr: "journal s1 = Some d" "foreign_keys s1 = foreign_keys s" by simp_all
  show ?case
  proof (cases r1)
    case None
    with Cons.prems(2) ex have "insert_callees e caller (Suc i) cs s1 = (r, s')" by simp
    from Cons.IH [OF fr(1) this] fr(2) show ?thesis by simp
  next
    case (Some err)
    with Cons.prems(2) ex have "r = Some (InsertCallError caller callee err)" "s' = tx_Rollback s1"
      by simp_all
    with tx_Rollback_open [OF fr(1)] fr(2) show ?thesis by simp
  qed
qed

lemma insert_calls_frame:
  "journal s = Some d \<Longrightarrow> insert_calls e es s = (r, s') \<Longrightarrow>
     (r = None \<longrightarrow> journal s' = Some d \<and> foreign_keys s' = foreign_keys s)
     \<and> (r \<noteq> None \<longrightarrow> s' = \<lparr>db = d, journal = None, foreign_keys = foreign_keys s\<rparr>)"
proof (induction es arbitrary: s)
  case Nil
  then show ?case by simp
next
  case (Cons x es)
  obtain caller node where x: "x = (caller, node)" by (cases x)
  obtain r1 s1 where ex: "insert_callees e caller 0 (elems (Callees node)) s = (r1, s1)"
    by (cases "insert_callees e caller 0 (elems (Callees node)) s")
  note fr = insert_callees_frame [OF Cons.prems(1) ex]
  show ?case
  proof (cases r1)
    case None
    with fr have j: "journal s1 = Some d" and f: "foreign_keys s1 = foreign_keys s" by simp_all
    from None Cons.prems(2) x ex have "insert_calls e es s1 = (r, s')" by simp
    from Cons.IH [OF j this] f show ?thesis by simp
  next
    case (Some err)
    with Cons.prems(2) x ex have "r = Some err" "s' = s1" by simp_all
    with fr Some show ?thesis by simp
  qed
qed

lemma SaveGraph_error_restores:
  assumes "SaveGraph e ord1 ord2 g s = (Some err, s')"
  shows "s' = s"
proof (cases "fails e Begin \<or> journal s \<noteq> None")
  case True
  with assms show ?thesis
    by (auto simp: SaveGraph_def tx_Begin_def split: if_splits)
next
  case False
  define s0 where "s0 = s\<lparr>journal := Some (db s)\<rparr>"
  have b: "tx_Begin e s = (None, s0)" using False by (simp add: tx_Begin_def s0_def)
  have orig: "\<lparr>db = db s, journal = None, foreign_keys = foreign_keys s\<rparr> = s"
    using False by simp
  have rb: "\<And>t. journal t = Some (db s) \<Longrightarrow> foreign_keys t = foreign_keys s \<Longrightarrow> tx_Rollback t = s"
    using tx_Rollback_open orig by simp
  show ?thesis
  proof (cases "fails e DeleteCalls")
    case True
    with assms b show ?thesis
      by (simp add: SaveGraph_def exec_delete_calls_def rb s0_def)
  next
    case dc: False
    define s1 where "s1 = s0\<lparr>db := (db s0)\<lparr>tbl_calls := []\<rparr>\<rparr>"
    have e1: "exec_delete_calls e s0 = (None, s1)"
      using dc by (simp add: exec_delete_calls_def s1_def)
    have f1: "journal s1 = Some (db s)" "foreign_keys s1 = foreign_keys s"
      by (simp_all add: s1_def s0_def)
    show ?thesis
    proof (cases "fails e DeleteFunctions")
      case True
      with assms b e1 show ?thesis
        by (simp add: SaveGraph_def exec_delete_functions_def rb f1)
    next
      case df: False
      obtain s2 where e2: "exec_delete_functions e s1 = (None, s2)"
        and f2: "journal s2 = Some (db s)" "foreign_keys s2 = foreign_keys s"
        using df f1 by (simp add: exec_delete_functions_def)
      show ?thesis
      proof (cases "fails e PrepareInsertFn \<or> fails e PrepareInsertCall")
        case True
        with assms b e1 e2 show ?thesis
          by (auto simp: SaveGraph_def tx_Prepare_def rb f2 split: if_splits)
      next
        case pr: False
        obtain r3 s3 where e3: "insert_functions e (range_map g ord1) s2 = (r3, s3)"
          by (cases "insert_functions e (range_map g ord1) s2")
        note fr3 = insert_functions_frame [OF f2(1) e3]
        show ?thesis
        proof (cases r3)
          case (Some err3)
          with assms b e1 e2 pr e3 have "s' = s3"
            by (simp add: SaveGraph_def tx_Prepare_def)
          with fr3 Some f2 orig show ?thesis by simp
        next
          case None
          with fr3 f2 have f3: "journal s3 = Some (db s)" "foreign_keys s3 = foreign_keys s"
            by simp_all
          obtain r4 s4 where e4: "insert_calls e (range_map g ord2) s3 = (r4, s4)"
            by (cases "insert_calls e (range_map g ord2) s3")
          note fr4 = insert_calls_frame [OF f3(1) e4]
          show ?thesis
          proof (cases r4)
            case (Some err4)
            with assms b e1 e2 pr e3 None e4 have "s' = s4"
              by (simp add: SaveGraph_def tx_Prepare_def)
            with fr4 Some f3 orig show ?thesis by simp
          next
            case n4: None
            with fr4 f3 have f4: "journal s4 = Some (db s)" "foreign_keys s4 = foreign_keys s"
              by simp_all
            from assms b e1 e2 pr e3 None e4 n4 have "tx_Commit e s4 = (Some err, s')"
              by (simp add: SaveGraph_def tx_Prepare_def)
            then have "s' = tx_Rollback s4"
              by (auto simp: tx_Commit_def split: if_splits)
            with rb [OF f4] show ?thesis by simp
          qed
        qed
      qed
    qed
  qed
qed

lemma insert_functions_passed:
  "insert_functions e es s = (None, s') \<Longrightarrow> (name, node) \<in> set es \<Longrightarrow> \<not> fails e (InsertFn name)"
proof (induction es arbitrary: s)
  case Nil
  then show ?case by simp
next
  case (Cons x es)
  obtain k n where x: "x = (k, n)" by (cases x)
  obtain r1 s1 where ex: "exec_insertFn e k (Signature n) (Definition n) s = (r1, s1)"
    by (cases "exec_insertFn e k (Signature n) (Definition n) s")
  from Cons.prems(1) x ex have r1: "r1 = None" and rest: "insert_functions e es s1 = (None, s')"
    by (auto split: option.splits)
  from ex r1 have "\<not> fails e (InsertFn k)"
    by (auto simp: exec_insertFn_def split: if_splits)
  with Cons.IH [OF rest] Cons.prems(2) x show ?case by auto
qed

lemma insert_callees_passed:
  "insert_callees e caller i cs s = (None, s') \<Longrightarrow> j < length cs \<Longrightarrow>
     \<not> fails e (InsertCall caller (i + j))"
proof (induction cs arbitrary: s i j)
  case Nil
  then show ?case by simp
next
  case (Cons c cs)
  obtain r1 s1 where ex: "exec_insertCall e i caller c s = (r1, s1)"
    by (cases "exec_insertCall e i caller c s")
  from Cons.prems(1) ex have r1: "r1 = None"
    and rest: "insert_callees e caller (Suc i) cs s1 = (None, s')"
    by (auto split: option.splits)
  from ex r1 have here: "\<not> fails e (InsertCall caller i)"
    by (auto simp: exec_insertCall_def split: if_splits)
  show ?case
  proof (cases j)
    case 0
    with here show ?thesis by simp
  next
    case (Suc j')
    with Cons.prems(2) have "j' < length cs" by simp
    from Cons.IH [OF rest this] Suc show ?thesis by simp
  qed
qed

lemma insert_calls_passed:
  "insert_calls e es s = (None, s') \<Longrightarrow> (caller, node) \<in> set es \<Longrightarrow>
     j < length (elems (Callees node)) \<Longrightarrow> \<not> fails e (InsertCall caller j)"
proof (induction es arbitrary: s)
  case Nil
  then show ?case by simp
next
  case (Cons x es)
  obtain k n where x: "x = (k, n)" by (cases x)
  obtain r1 s1 where ex: "insert_callees e k 0 (elems (Callees n)) s = (r1, s1)"
    by (cases "insert_callees e k 0 (elems (Callees n)) s")
  from Cons.prems(1) x ex have r1: "r1 = None" and rest: "insert_calls e es s1 = (None, s')"
    by (auto split: option.splits)
  show ?case
  proof (cases "caller = k \<and> node = n")
    case True
    with insert_callees_passed [of e k 0 "elems (Callees n)" s s1 j] ex r1 Cons.prems(3)
    show ?thesis by simp
  next
    case False
    with Cons.prems(2) x have "(caller, node) \<in> set es" by auto
    from Cons.IH [OF rest this Cons.prems(3)] show ?thesis .
  qed
qed

lemma SaveGraph_success_parts:
  assumes "SaveGraph e ord1 ord2 g s = (None, s')"
  shows "\<exists>s2 s3 s4. \<not> fails e Begin \<and> journal s = None \<and> \<not> fails e DeleteCalls
           \<and> \<not> fails e DeleteFunctions
           \<and> \<not> fails e PrepareInsertFn \<and> \<not> fails e PrepareInsertCall \<and> \<not> fails e Commit
           \<and> s2 = \<lparr>db = \<lparr>tbl_functions = [], tbl_calls = []\<rparr>, journal = Some (db s),
                    foreign_keys = foreign_keys s\<rparr>
           \<and> insert_functions e (range_map g ord1) s2 = (None, s3)
           \<and> insert_calls e (range_map g ord2) s3 = (None, s4)
           \<and> s' = s4\<lparr>journal := None\<rparr>"
proof -
  from assms have b: "\<not> fails e Begin" "journal s = None"
    by (auto simp: SaveGraph_def tx_Begin_def split: if_splits)
  then have tb: "tx_Begin e s = (None, s\<lparr>journal := Some (db s)\<rparr>)"
    by (simp add: tx_Begin_def)
  from assms tb have dc: "\<not> fails e DeleteCalls"
    by (auto simp: SaveGraph_def exec_delete_calls_def split: if_splits)
  let ?s1 = "s\<lparr>journal := Some (db s), db := (db s)\<lparr>tbl_calls := []\<rparr>\<rparr>"
  from dc have e1: "exec_delete_calls e (s\<lparr>journal := Some (db s)\<rparr>) = (None, ?s1)"
    by (simp add: exec_delete_calls_def)
  from assms tb e1 have df: "\<not> fails e DeleteFunctions"
    by (auto simp: SaveGraph_def exec_delete_functions_def split: if_splits)
  let ?s2 = "\<lparr>db = \<lparr>tbl_functions = [], tbl_calls = []\<rparr>, journal = Some (db s),
               foreign_keys = foreign_keys s\<rparr>"
  from df have e2: "exec_delete_functions e ?s1 = (None, ?s2)"
    by (simp add: exec_delete_functions_def)
  from assms tb e1 e2 have pr: "\<not> fails e PrepareInsertFn" "\<not> fails e PrepareInsertCall"
    by (auto simp: SaveGraph_def tx_Prepare_def split: if_splits)
  obtain r3 s3 where e3: "insert_functions e (range_map g ord1) ?s2 = (r3, s3)"
    by (cases "insert_functions e (range_map g ord1) ?s2")
  from assms tb e1 e2 pr e3 have r3: "r3 = None"
    by (auto simp: SaveGraph_def tx_Prepare_def split: option.splits)
  obtain r4 s4 where e4: "insert_calls e (range_map g ord2) s3 = (r4, s4)"
    by (cases "insert_calls e (range_map g ord2) s3")
  from assms tb e1 e2 pr e3 r3 e4 have r4: "r4 = None"
    by (auto simp: SaveGraph_def tx_Prepare_def split: option.splits)
  from assms tb e1 e2 pr e3 r3 e4 r4 have c: "tx_Commit e s4 = (None, s')"
    by (simp add: SaveGraph_def tx_Prepare_def)
  then have "\<not> fails e Commit" "s' = s4\<lparr>journal := None\<rparr>"
    by (auto simp: tx_Commit_def split: if_splits)
  with b dc df pr e3 r3 e4 r4 show ?thesis by blast
qed

lemma SaveGraph_success_passed:
  assumes "SaveGraph e ord1 ord2 g s = (None, s')" and "p \<in> set (save_steps ord1 ord2 g)"
  shows "\<not> fails e p"
proof -
  from SaveGraph_success_parts [OF assms(1)] obtain s2 s3 s4 where
    fixed: "\<not> fails e Begin" "\<not> fails e DeleteCalls" "\<not> fails e DeleteFunctions"
      "\<not> fails e PrepareInsertFn" "\<not> fails e PrepareInsertCall" "\<not> fails e Commit"
    and e3: "insert_functions e (range_map g ord1) s2 = (None, s3)"
    and e4: "insert_calls e (range_map g ord2) s3 = (None, s4)"
    by blast
  from assms(2) consider
      "p \<in> {Begin, DeleteCalls, DeleteFunctions, PrepareInsertFn, PrepareInsertCall, Commit}"
    | name node where "(name, node) \<in> set (range_map g ord1)" "p = InsertFn name"
    | caller node j where "(caller, node) \<in> set (range_map g ord2)"
        "j < length (elems (Callees node))" "p = InsertCall caller j"
    by (auto simp: save_steps_def)
  then show ?thesis
  proof cases
    case 1
    with fixed show ?thesis by auto
  next
    case 2
    with insert_functions_passed [OF e3] show ?thesis by simp
  next
    case 3
    with insert_calls_passed [OF e4] show ?thesis by simp
  qed
qed

text \<open>
  C2. \<open>SaveGraph\<close> is atomic. Whenever it returns an error, the store is exactly what it
  was before the call: the content is the old content and no transaction is left open.
  And it does return an error whenever one of the operations of the save fails: beginning
  the transaction, the delete of the edges, the delete of the functions, the preparation
  of either statement, the insert of any function row, the insert of any edge row, or
  the commit. So no partly written graph is ever left in the store.
\<close>

theorem SaveGraph_atomic:
  "(fst (SaveGraph e ord1 ord2 g s) \<noteq> None \<longrightarrow> snd (SaveGraph e ord1 ord2 g s) = s)
   \<and> ((\<exists>p \<in> set (save_steps ord1 ord2 g). fails e p) \<longrightarrow> fst (SaveGraph e ord1 ord2 g s) \<noteq> None)"
proof -
  obtain r s' where sg: "SaveGraph e ord1 ord2 g s = (r, s')"
    by (cases "SaveGraph e ord1 ord2 g s")
  have "r \<noteq> None \<longrightarrow> s' = s"
    using SaveGraph_error_restores sg by blast
  moreover have "(\<exists>p \<in> set (save_steps ord1 ord2 g). fails e p) \<longrightarrow> r \<noteq> None"
  proof (cases r)
    case None
    with sg SaveGraph_success_passed [of e ord1 ord2 g s s'] show ?thesis by blast
  next
    case (Some err)
    then show ?thesis by simp
  qed
  ultimately show ?thesis using sg by simp
qed

subsection \<open>The primary key of \<open>calls\<close>\<close>

lemma exec_insertCall_distinct:
  "exec_insertCall e i caller callee s = (None, s') \<Longrightarrow> distinct (tbl_calls (db s)) \<Longrightarrow>
     distinct (tbl_calls (db s'))"
  by (auto simp: exec_insertCall_def split: if_splits)

lemma insert_callees_distinct:
  "insert_callees e caller i cs s = (None, s') \<Longrightarrow> distinct (tbl_calls (db s)) \<Longrightarrow>
     distinct (tbl_calls (db s'))"
proof (induction cs arbitrary: s i)
  case Nil
  then show ?case by simp
next
  case (Cons c cs)
  obtain r1 s1 where ex: "exec_insertCall e i caller c s = (r1, s1)"
    by (cases "exec_insertCall e i caller c s")
  from Cons.prems(1) ex have r1: "r1 = None"
    and rest: "insert_callees e caller (Suc i) cs s1 = (None, s')"
    by (auto split: option.splits)
  from exec_insertCall_distinct ex r1 Cons.prems(2) have "distinct (tbl_calls (db s1))" by blast
  from Cons.IH [OF rest this] show ?case .
qed

lemma insert_calls_distinct:
  "insert_calls e es s = (None, s') \<Longrightarrow> distinct (tbl_calls (db s)) \<Longrightarrow>
     distinct (tbl_calls (db s'))"
proof (induction es arbitrary: s)
  case Nil
  then show ?case by simp
next
  case (Cons x es)
  obtain k n where x: "x = (k, n)" by (cases x)
  obtain r1 s1 where ex: "insert_callees e k 0 (elems (Callees n)) s = (r1, s1)"
    by (cases "insert_callees e k 0 (elems (Callees n)) s")
  from Cons.prems(1) x ex have r1: "r1 = None" and rest: "insert_calls e es s1 = (None, s')"
    by (auto split: option.splits)
  from insert_callees_distinct ex r1 Cons.prems(2) have "distinct (tbl_calls (db s1))" by blast
  from Cons.IH [OF rest this] show ?case .
qed

lemma exec_insertFn_calls:
  "exec_insertFn e name sig def s = (None, s') \<Longrightarrow> tbl_calls (db s') = tbl_calls (db s)"
  by (auto simp: exec_insertFn_def split: if_splits)

lemma insert_functions_calls:
  "insert_functions e es s = (None, s') \<Longrightarrow> tbl_calls (db s') = tbl_calls (db s)"
proof (induction es arbitrary: s)
  case Nil
  then show ?case by simp
next
  case (Cons x es)
  obtain k n where x: "x = (k, n)" by (cases x)
  obtain r1 s1 where ex: "exec_insertFn e k (Signature n) (Definition n) s = (r1, s1)"
    by (cases "exec_insertFn e k (Signature n) (Definition n) s")
  from Cons.prems(1) x ex have r1: "r1 = None" and rest: "insert_functions e es s1 = (None, s')"
    by (auto split: option.splits)
  from exec_insertFn_calls ex r1 Cons.IH [OF rest] show ?case by simp
qed

lemma SaveGraph_calls_distinct:
  assumes "SaveGraph e ord1 ord2 g s = (None, s')"
  shows "distinct (tbl_calls (committed s'))"
proof -
  from SaveGraph_success_parts [OF assms] obtain s2 s3 s4 where
    s2: "s2 = \<lparr>db = \<lparr>tbl_functions = [], tbl_calls = []\<rparr>, journal = Some (db s),
               foreign_keys = foreign_keys s\<rparr>"
    and e3: "insert_functions e (range_map g ord1) s2 = (None, s3)"
    and e4: "insert_calls e (range_map g ord2) s3 = (None, s4)"
    and s': "s' = s4\<lparr>journal := None\<rparr>"
    by blast
  from insert_functions_calls [OF e3] s2 have "distinct (tbl_calls (db s3))" by simp
  from insert_calls_distinct [OF e4 this] s' show ?thesis by (simp add: committed_def)
qed

subsection \<open>Reading the rows back\<close>

lemma load_functions_empty_callees:
  "load_functions e i rows g = Inr g' \<Longrightarrow>
     (\<forall>k n. g k = Some n \<longrightarrow> Callees n = Slice []) \<Longrightarrow> g' k = Some n' \<Longrightarrow> Callees n' = Slice []"
proof (induction rows arbitrary: g i)
  case Nil
  then show ?case by simp
next
  case (Cons row rows)
  obtain name sig def where row: "row = (name, sig, def)" by (cases row)
  let ?g1 = "g(name \<mapsto> \<lparr>Callees = Slice [], Signature = sig, Definition = def\<rparr>)"
  from Cons.prems(1) row have rest: "load_functions e (Suc i) rows ?g1 = Inr g'"
    by (simp split: if_splits)
  have "\<forall>k n. ?g1 k = Some n \<longrightarrow> Callees n = Slice []"
    using Cons.prems(2) by auto
  from Cons.IH [OF rest this Cons.prems(3)] show ?case .
qed

lemma load_calls_None:
  "load_calls e i rows g = Inr g' \<Longrightarrow> (g' k = None) = (g k = None)"
proof (induction rows arbitrary: g i)
  case Nil
  then show ?case by simp
next
  case (Cons row rows)
  obtain caller callee where row: "row = (caller, callee)" by (cases row)
  let ?g1 = "case g caller of
               Some node \<Rightarrow> g(caller \<mapsto> node\<lparr>Callees := append_slice (Callees node) callee\<rparr>)
             | None \<Rightarrow> g"
  from Cons.prems row have rest: "load_calls e (Suc i) rows ?g1 = Inr g'"
    by (simp split: if_splits)
  have "(?g1 k = None) = (g k = None)" by (auto split: option.splits)
  with Cons.IH [OF rest] show ?case by simp
qed

lemma load_calls_Some:
  "load_calls e i rows g = Inr g' \<Longrightarrow> g k = Some n \<Longrightarrow>
     \<exists>n'. g' k = Some n' \<and> Signature n' = Signature n \<and> Definition n' = Definition n
          \<and> elems (Callees n') = elems (Callees n) @ map snd (filter (\<lambda>r. fst r = k) rows)"
proof (induction rows arbitrary: g i n)
  case Nil
  then show ?case by simp
next
  case (Cons row rows)
  obtain caller callee where row: "row = (caller, callee)" by (cases row)
  let ?g1 = "case g caller of
               Some node \<Rightarrow> g(caller \<mapsto> node\<lparr>Callees := append_slice (Callees node) callee\<rparr>)
             | None \<Rightarrow> g"
  from Cons.prems(1) row have rest: "load_calls e (Suc i) rows ?g1 = Inr g'"
    by (simp split: if_splits)
  show ?case
  proof (cases "caller = k")
    case True
    with Cons.prems(2)
    have g1: "?g1 k = Some (n\<lparr>Callees := append_slice (Callees n) callee\<rparr>)" by simp
    from Cons.IH [OF rest g1] True row show ?thesis by auto
  next
    case False
    with Cons.prems(2) have g1: "?g1 k = Some n" by (auto split: option.splits)
    from Cons.IH [OF rest g1] False row show ?thesis by auto
  qed
qed

lemma distinct_callees_of:
  assumes "distinct rows"
  shows "distinct (map snd (filter (\<lambda>r. fst r = k) rows))"
proof -
  have "inj_on snd {r \<in> set rows. fst r = k}"
    by (auto simp: inj_on_def prod_eq_iff)
  with assms show ?thesis by (simp add: distinct_map)
qed

lemma LoadGraph_parts:
  assumes "LoadGraph e s = Inr g'"
  shows "\<exists>g0 i j. load_functions e i (scan_functions e (tbl_functions (committed s))) Map.empty = Inr g0
           \<and> load_calls e j (scan_calls e (tbl_calls (committed s))) g0 = Inr g'"
  using assms by (auto simp: LoadGraph_def split: if_splits sum.splits)

text \<open>
  C9. For every input graph, also one whose callee lists repeat a callee, and for every
  order in which the engine delivers rows: when \<open>SaveGraph\<close> succeeds and \<open>LoadGraph\<close> then
  returns a graph, every callee list of that graph is free of duplicates. The primary key
  \<open>(caller, callee)\<close> with \<open>INSERT OR IGNORE\<close> keeps each edge once.
\<close>

theorem Load_after_Save_distinct:
  assumes "scans_permute e"
    and "SaveGraph e ord1 ord2 g s = (None, s')"
    and "LoadGraph e s' = Inr g'"
    and "g' k = Some n"
  shows "distinct (elems (Callees n))"
proof -
  from LoadGraph_parts [OF assms(3)] obtain g0 i j where
    lf: "load_functions e i (scan_functions e (tbl_functions (committed s'))) Map.empty = Inr g0"
    and lc: "load_calls e j (scan_calls e (tbl_calls (committed s'))) g0 = Inr g'"
    by blast
  let ?rows = "scan_calls e (tbl_calls (committed s'))"
  from assms(1) have "mset ?rows = mset (tbl_calls (committed s'))"
    by (simp add: scans_permute_def)
  with SaveGraph_calls_distinct [OF assms(2)] have d: "distinct ?rows"
    by (metis mset_eq_imp_distinct_iff)
  from load_calls_None [OF lc, of k] assms(4) obtain n0 where n0: "g0 k = Some n0" by auto
  from load_functions_empty_callees [OF lf _ n0] have "Callees n0 = Slice []" by simp
  with load_calls_Some [OF lc n0] assms(4)
  have "elems (Callees n) = map snd (filter (\<lambda>r. fst r = k) ?rows)" by auto
  with distinct_callees_of [OF d] show ?thesis by simp
qed

subsection \<open>Ranging over a map\<close>

lemma set_range_map: "set (range_map m ks) = {(k, v). k \<in> set ks \<and> m k = Some v}"
  by (induction ks) (auto simp: range_map_def map_filter_simps split: option.splits)

lemma map_fst_range_map: "map fst (range_map m ks) = filter (\<lambda>k. m k \<noteq> None) ks"
  by (induction ks) (auto simp: range_map_def map_filter_simps split: option.splits)

lemma distinct_range_map: "distinct ks \<Longrightarrow> distinct (map fst (range_map m ks))"
  by (simp add: map_fst_range_map)

lemma set_range_map_order:
  "iteration_order m ks \<Longrightarrow> set (range_map m ks) = {(k, v). m k = Some v}"
  by (auto simp: set_range_map iteration_order_def)

subsection \<open>A save that meets no fault\<close>

lemma insert_functions_ok:
  "no_faults e \<Longrightarrow> distinct (map fst es) \<Longrightarrow>
   fst ` set es \<inter> fst ` set (tbl_functions (db s)) = {} \<Longrightarrow>
   insert_functions e es s =
     (None, s\<lparr>db := (db s)\<lparr>tbl_functions :=
        tbl_functions (db s) @ map (\<lambda>(k, n). (k, Signature n, Definition n)) es\<rparr>\<rparr>)"
proof (induction es arbitrary: s)
  case Nil
  then show ?case by simp
next
  case (Cons x es)
  obtain k n where x: "x = (k, n)" by (cases x)
  let ?s1 = "s\<lparr>db := (db s)\<lparr>tbl_functions := tbl_functions (db s) @ [(k, Signature n, Definition n)]\<rparr>\<rparr>"
  from Cons.prems x have ex: "exec_insertFn e k (Signature n) (Definition n) s = (None, ?s1)"
    by (auto simp: exec_insertFn_def no_faults_def)
  from Cons.prems x have "distinct (map fst es)"
    and "fst ` set es \<inter> fst ` set (tbl_functions (db ?s1)) = {}"
    by (auto simp: image_iff)
  from Cons.IH [OF Cons.prems(1) this] ex x show ?case by simp
qed

lemma insert_callees_ok:
  "no_faults e \<Longrightarrow>
   (foreign_keys s \<longrightarrow> caller \<in> fst ` set (tbl_functions (db s))
                       \<and> set cs \<subseteq> fst ` set (tbl_functions (db s))) \<Longrightarrow>
   \<exists>s'. insert_callees e caller i cs s = (None, s')
        \<and> tbl_functions (db s') = tbl_functions (db s)
        \<and> foreign_keys s' = foreign_keys s \<and> journal s' = journal s
        \<and> set (tbl_calls (db s')) = set (tbl_calls (db s)) \<union> Pair caller ` set cs"
proof (induction cs arbitrary: s i)
  case Nil
  then show ?case by simp
next
  case (Cons c cs)
  define s1 where "s1 = (if (caller, c) \<in> set (tbl_calls (db s)) then s
                         else s\<lparr>db := (db s)\<lparr>tbl_calls := tbl_calls (db s) @ [(caller, c)]\<rparr>\<rparr>)"
  have ex: "exec_insertCall e i caller c s = (None, s1)"
    using Cons.prems by (auto simp: exec_insertCall_def no_faults_def s1_def)
  have keep: "tbl_functions (db s1) = tbl_functions (db s)" "foreign_keys s1 = foreign_keys s"
      "journal s1 = journal s"
    by (simp_all add: s1_def)
  have rows: "set (tbl_calls (db s1)) = insert (caller, c) (set (tbl_calls (db s)))"
    by (auto simp: s1_def)
  from Cons.prems(2) keep
  have "foreign_keys s1 \<longrightarrow> caller \<in> fst ` set (tbl_functions (db s1))
          \<and> set cs \<subseteq> fst ` set (tbl_functions (db s1))"
    by simp
  from Cons.IH [OF Cons.prems(1) this, of "Suc i"] obtain s' where
    "insert_callees e caller (Suc i) cs s1 = (None, s')"
    "tbl_functions (db s') = tbl_functions (db s1)"
    "foreign_keys s' = foreign_keys s1" "journal s' = journal s1"
    "set (tbl_calls (db s')) = set (tbl_calls (db s1)) \<union> Pair caller ` set cs"
    by blast
  with ex keep rows show ?case by simp
qed

lemma insert_calls_ok:
  "no_faults e \<Longrightarrow>
   (foreign_keys s \<longrightarrow> (\<forall>(k, n) \<in> set es. k \<in> fst ` set (tbl_functions (db s))
                          \<and> set (elems (Callees n)) \<subseteq> fst ` set (tbl_functions (db s)))) \<Longrightarrow>
   \<exists>s'. insert_calls e es s = (None, s')
        \<and> tbl_functions (db s') = tbl_functions (db s)
        \<and> foreign_keys s' = foreign_keys s \<and> journal s' = journal s
        \<and> set (tbl_calls (db s')) =
            set (tbl_calls (db s)) \<union> {(k, c). \<exists>n. (k, n) \<in> set es \<and> c \<in> set (elems (Callees n))}"
proof (induction es arbitrary: s)
  case Nil
  then show ?case by simp
next
  case (Cons x es)
  obtain k n where x: "x = (k, n)" by (cases x)
  from Cons.prems(2) x
  have "foreign_keys s \<longrightarrow> k \<in> fst ` set (tbl_functions (db s))
          \<and> set (elems (Callees n)) \<subseteq> fst ` set (tbl_functions (db s))"
    by simp
  from insert_callees_ok [OF Cons.prems(1) this, of 0] obtain s1 where
    ex: "insert_callees e k 0 (elems (Callees n)) s = (None, s1)"
    and keep: "tbl_functions (db s1) = tbl_functions (db s)" "foreign_keys s1 = foreign_keys s"
      "journal s1 = journal s"
    and rows: "set (tbl_calls (db s1)) = set (tbl_calls (db s)) \<union> Pair k ` set (elems (Callees n))"
    by blast
  from Cons.prems(2) x keep
  have "foreign_keys s1 \<longrightarrow> (\<forall>(k, n) \<in> set es. k \<in> fst ` set (tbl_functions (db s1))
          \<and> set (elems (Callees n)) \<subseteq> fst ` set (tbl_functions (db s1)))"
    by simp
  from Cons.IH [OF Cons.prems(1) this] obtain s' where
    rest: "insert_calls e es s1 = (None, s')"
    and keep': "tbl_functions (db s') = tbl_functions (db s1)"
      "foreign_keys s' = foreign_keys s1" "journal s' = journal s1"
    and rows': "set (tbl_calls (db s')) =
        set (tbl_calls (db s1)) \<union> {(k, c). \<exists>n. (k, n) \<in> set es \<and> c \<in> set (elems (Callees n))}"
    by blast
  have "set (tbl_calls (db s')) =
      set (tbl_calls (db s)) \<union> {(k', c). \<exists>n'. (k', n') \<in> set (x # es) \<and> c \<in> set (elems (Callees n'))}"
    unfolding rows' rows x by auto
  with ex rest keep keep' x show ?case by simp
qed

subsection \<open>A load that meets no fault\<close>

lemma load_functions_ok: "no_faults e \<Longrightarrow> \<exists>g'. load_functions e i rows g = Inr g'"
proof (induction rows arbitrary: g i)
  case Nil
  then show ?case by simp
next
  case (Cons row rows)
  obtain name sig def where row: "row = (name, sig, def)" by (cases row)
  from Cons.prems have "\<not> fails e (ScanFunction i)" by (simp add: no_faults_def)
  with Cons.IH [OF Cons.prems] row show ?case by simp
qed

lemma load_calls_ok: "no_faults e \<Longrightarrow> \<exists>g'. load_calls e i rows g = Inr g'"
proof (induction rows arbitrary: g i)
  case Nil
  then show ?case by simp
next
  case (Cons row rows)
  obtain caller callee where row: "row = (caller, callee)" by (cases row)
  from Cons.prems have "\<not> fails e (ScanCall i)" by (simp add: no_faults_def)
  with Cons.IH [OF Cons.prems] row show ?case by simp
qed

lemma load_functions_other:
  "load_functions e i rows g = Inr g' \<Longrightarrow> k \<notin> fst ` set rows \<Longrightarrow> g' k = g k"
proof (induction rows arbitrary: g i)
  case Nil
  then show ?case by simp
next
  case (Cons row rows)
  obtain name sig def where row: "row = (name, sig, def)" by (cases row)
  let ?g1 = "g(name \<mapsto> \<lparr>Callees = Slice [], Signature = sig, Definition = def\<rparr>)"
  from Cons.prems(1) row have rest: "load_functions e (Suc i) rows ?g1 = Inr g'"
    by (simp split: if_splits)
  from Cons.prems(2) row have "k \<notin> fst ` set rows" "k \<noteq> name" by auto
  with Cons.IH [OF rest] show ?case by simp
qed

lemma load_functions_row:
  "load_functions e i rows g = Inr g' \<Longrightarrow> distinct (map fst rows) \<Longrightarrow>
   (k, sig, def) \<in> set rows \<Longrightarrow>
   g' k = Some \<lparr>Callees = Slice [], Signature = sig, Definition = def\<rparr>"
proof (induction rows arbitrary: g i)
  case Nil
  then show ?case by simp
next
  case (Cons row rows)
  obtain name sig' def' where row: "row = (name, sig', def')" by (cases row)
  let ?g1 = "g(name \<mapsto> \<lparr>Callees = Slice [], Signature = sig', Definition = def'\<rparr>)"
  from Cons.prems(1) row have rest: "load_functions e (Suc i) rows ?g1 = Inr g'"
    by (simp split: if_splits)
  from Cons.prems(2) row have d: "distinct (map fst rows)" and fresh: "name \<notin> fst ` set rows"
    by simp_all
  show ?case
  proof (cases "(k, sig, def) \<in> set rows")
    case True
    from Cons.IH [OF rest d True] show ?thesis .
  next
    case False
    with Cons.prems(3) row have "k = name" "sig = sig'" "def = def'" by simp_all
    with load_functions_other [OF rest fresh] show ?thesis by simp
  qed
qed

lemma committed_closed: "journal s = None \<Longrightarrow> committed s = db s"
  by (simp add: committed_def)

lemma SaveGraph_ok:
  assumes nf: "no_faults e" and closed: "journal s = None"
    and o1: "iteration_order g ord1" and o2: "iteration_order g ord2"
    and cw: "closed_world g"
  shows "\<exists>s'. SaveGraph e ord1 ord2 g s = (None, s') \<and> journal s' = None
          \<and> tbl_functions (db s') = map (\<lambda>(k, n). (k, Signature n, Definition n)) (range_map g ord1)
          \<and> set (tbl_calls (db s')) = {(k, c). \<exists>n. g k = Some n \<and> c \<in> set (elems (Callees n))}"
proof -
  define s2 where "s2 = \<lparr>db = \<lparr>tbl_functions = [], tbl_calls = []\<rparr>, journal = Some (db s),
               foreign_keys = foreign_keys s\<rparr>"
  let ?F = "map (\<lambda>(k, n). (k, Signature n, Definition n)) (range_map g ord1)"
  define s3 where "s3 = s2\<lparr>db := (db s2)\<lparr>tbl_functions := tbl_functions (db s2) @ ?F\<rparr>\<rparr>"
  from nf closed have pre: "tx_Begin e s = (None, s\<lparr>journal := Some (db s)\<rparr>)"
    "exec_delete_calls e (s\<lparr>journal := Some (db s)\<rparr>)
       = (None, s\<lparr>journal := Some (db s), db := (db s)\<lparr>tbl_calls := []\<rparr>\<rparr>)"
    "exec_delete_functions e (s\<lparr>journal := Some (db s), db := (db s)\<lparr>tbl_calls := []\<rparr>\<rparr>)
       = (None, s2)"
    "tx_Prepare e PrepareInsertFn = None" "tx_Prepare e PrepareInsertCall = None"
    by (simp_all add: no_faults_def tx_Begin_def exec_delete_calls_def exec_delete_functions_def
        tx_Prepare_def s2_def)
  from o1 have "distinct (map fst (range_map g ord1))"
    by (simp add: distinct_range_map iteration_order_def)
  with insert_functions_ok [OF nf, of "range_map g ord1" s2]
  have e3: "insert_functions e (range_map g ord1) s2 = (None, s3)"
    by (simp add: s2_def s3_def)
  have s3: "tbl_functions (db s3) = ?F" "tbl_calls (db s3) = []"
    by (simp_all add: s3_def s2_def)
  have names: "fst ` set (tbl_functions (db s3)) = dom g"
    unfolding s3 using set_range_map_order [OF o1] by (auto simp: image_iff)
  have "foreign_keys s3 \<longrightarrow> (\<forall>(k, n) \<in> set (range_map g ord2).
          k \<in> fst ` set (tbl_functions (db s3))
          \<and> set (elems (Callees n)) \<subseteq> fst ` set (tbl_functions (db s3)))"
    unfolding names set_range_map_order [OF o2] using cw
    by (auto simp: closed_world_def)
  from insert_calls_ok [OF nf this] obtain s4 where
    e4: "insert_calls e (range_map g ord2) s3 = (None, s4)"
    and keep: "tbl_functions (db s4) = tbl_functions (db s3)"
    and rows: "set (tbl_calls (db s4)) = set (tbl_calls (db s3))
        \<union> {(k, c). \<exists>n. (k, n) \<in> set (range_map g ord2) \<and> c \<in> set (elems (Callees n))}"
    by blast
  from nf have c: "tx_Commit e s4 = (None, s4\<lparr>journal := None\<rparr>)"
    by (simp add: tx_Commit_def no_faults_def)
  have sg: "SaveGraph e ord1 ord2 g s = (None, s4\<lparr>journal := None\<rparr>)"
    by (simp add: SaveGraph_def pre e3 e4 c)
  have "set (tbl_calls (db s4)) = {(k, c). \<exists>n. g k = Some n \<and> c \<in> set (elems (Callees n))}"
    unfolding rows s3 set_range_map_order [OF o2] by simp
  with sg keep s3 show ?thesis by simp
qed

text \<open>
  C1. Save, then load, is a round trip. Let \<open>g\<close> be a graph in which every callee is a
  key, saved to a store with no open transaction, where no operation of the engine fails
  and result sets come in any order. Then \<open>SaveGraph\<close> succeeds, \<open>LoadGraph\<close> returns a
  graph, and that graph has the keys of \<open>g\<close>, the signature and definition of \<open>g\<close> at every
  key, and at every key a callee list with the same elements as in \<open>g\<close> (as sets; the order
  is free). The two \<open>range\<close> loops of the save may visit the map in any two orders.
\<close>

theorem Save_then_Load_roundtrip:
  assumes nf: "no_faults e" and perm: "scans_permute e" and closed: "journal s = None"
    and o1: "iteration_order g ord1" and o2: "iteration_order g ord2"
    and cw: "closed_world g"
  shows "\<exists>s' g'. SaveGraph e ord1 ord2 g s = (None, s') \<and> LoadGraph e s' = Inr g'
           \<and> same_content g g'"
proof -
  from SaveGraph_ok [OF nf closed o1 o2 cw] obtain s' where
    sg: "SaveGraph e ord1 ord2 g s = (None, s')" and j: "journal s' = None"
    and F: "tbl_functions (db s') = map (\<lambda>(k, n). (k, Signature n, Definition n)) (range_map g ord1)"
    and C: "set (tbl_calls (db s')) = {(k, c). \<exists>n. g k = Some n \<and> c \<in> set (elems (Callees n))}"
    by blast
  let ?frows = "scan_functions e (tbl_functions (db s'))"
  let ?crows = "scan_calls e (tbl_calls (db s'))"
  from load_functions_ok [OF nf] obtain g0 where
    lf: "load_functions e 0 ?frows Map.empty = Inr g0" by blast
  from load_calls_ok [OF nf] obtain g' where
    lc: "load_calls e 0 ?crows g0 = Inr g'" by blast
  from nf lf lc j have lg: "LoadGraph e s' = Inr g'"
    by (simp add: LoadGraph_def no_faults_def committed_closed)
  from perm have mf: "mset ?frows = mset (tbl_functions (db s'))"
    and mc: "mset ?crows = mset (tbl_calls (db s'))"
    by (simp_all add: scans_permute_def)
  from mf have sf: "set ?frows = set (tbl_functions (db s'))" by (rule mset_eq_setD)
  from mc have sc: "set ?crows = set (tbl_calls (db s'))" by (rule mset_eq_setD)
  have "map fst (tbl_functions (db s')) = map fst (range_map g ord1)"
    unfolding F by (simp add: case_prod_unfold comp_def)
  with o1 have "distinct (map fst (tbl_functions (db s')))"
    by (simp add: distinct_range_map iteration_order_def)
  moreover from mf have "mset (map fst ?frows) = mset (map fst (tbl_functions (db s')))"
    by (metis mset_map)
  ultimately have df: "distinct (map fst ?frows)"
    by (metis mset_eq_imp_distinct_iff)
  from sf have sf': "set ?frows = (\<lambda>(k, n). (k, Signature n, Definition n)) ` {(k, v). g k = Some v}"
    by (simp add: F set_range_map_order [OF o1])
  have rows_iff: "\<And>k sig def. (k, sig, def) \<in> set ?frows \<longleftrightarrow>
      (\<exists>n. g k = Some n \<and> sig = Signature n \<and> def = Definition n)"
    unfolding sf' by (auto simp: image_iff)
  have g0_some: "\<And>k n. g k = Some n \<Longrightarrow>
      g0 k = Some \<lparr>Callees = Slice [], Signature = Signature n, Definition = Definition n\<rparr>"
    using load_functions_row [OF lf df] rows_iff by blast
  have g0_none: "\<And>k. g k = None \<Longrightarrow> g0 k = None"
  proof -
    fix k assume "g k = None"
    with rows_iff have "k \<notin> fst ` set ?frows" by force
    from load_functions_other [OF lf this] show "g0 k = None" by simp
  qed
  have dom_eq: "dom g' = dom g"
  proof (rule set_eqI)
    fix k
    show "k \<in> dom g' \<longleftrightarrow> k \<in> dom g"
      using load_calls_None [OF lc, of k] g0_some [of k] g0_none [of k]
      by (cases "g k") auto
  qed
  have nodes: "\<And>k n. g k = Some n \<Longrightarrow>
      \<exists>n'. g' k = Some n' \<and> Signature n' = Signature n \<and> Definition n' = Definition n
           \<and> set (elems (Callees n')) = set (elems (Callees n))"
  proof -
    fix k n assume gk: "g k = Some n"
    from load_calls_Some [OF lc g0_some [OF gk]] obtain n' where
      n': "g' k = Some n'" "Signature n' = Signature n" "Definition n' = Definition n"
      and cs: "elems (Callees n') = map snd (filter (\<lambda>r. fst r = k) ?crows)"
      by auto
    have "set (elems (Callees n')) = {c. (k, c) \<in> set ?crows}"
      unfolding cs by force
    also have "\<dots> = set (elems (Callees n))"
      unfolding sc C using gk by simp
    finally show "\<exists>n'. g' k = Some n' \<and> Signature n' = Signature n \<and> Definition n' = Definition n
           \<and> set (elems (Callees n')) = set (elems (Callees n))"
      using n' by simp
  qed
  from dom_eq nodes have "same_content g g'" by (simp add: same_content_def)
  with sg lg show ?thesis by blast
qed

section \<open>Properties of the declaration index and the assembler\<close>

lemma foldl_nested:
  "foldl (\<lambda>a f. foldl g a (h f)) a fs = foldl g a (concat (map h fs))"
  by (induction fs arbitrary: a) simp_all

lemma decl_names_eq: "decl_names names ds = names \<union> Name ` set (func_decls ds)"
proof (induction ds arbitrary: names)
  case Nil
  then show ?case by (simp add: decl_names_def)
next
  case (Cons d ds)
  then show ?case by (cases d) (auto simp: decl_names_def)
qed

lemma declared_names_eq: "declared_names files = Name ` set (func_decls (all_decls files))"
proof -
  have "declared_names files = decl_names {} (all_decls files)"
    unfolding declared_names_def all_decls_def decl_names_def by (rule foldl_nested)
  then show ?thesis by (simp add: decl_names_eq)
qed

lemma func_decls_append: "func_decls (xs @ ys) = func_decls xs @ func_decls ys"
  by (induction xs rule: func_decls.induct) simp_all


lemma decl_details_lookup:
  "decl_details out ds name =
     (case filter (\<lambda>fn. Name fn = name) (func_decls ds) of
        [] \<Rightarrow> out name
      | fs \<Rightarrow> Some \<lparr>detSignature = TypeText (last fs), detDefinition = DeclText (last fs)\<rparr>)"
proof (induction ds arbitrary: out rule: func_decls.induct)
  case 1
  then show ?case by (simp add: decl_details_def)
next
  case (2 fn ds)
  have step: "decl_details out (Func fn # ds)
      = decl_details (out(Name fn \<mapsto> \<lparr>detSignature = TypeText fn, detDefinition = DeclText fn\<rparr>)) ds"
    by (simp add: decl_details_def)
  show ?case unfolding step "2.IH" by (auto split: list.splits)
next
  case (3 ds)
  have step: "decl_details out (GenDecl # ds) = decl_details out ds"
    by (simp add: decl_details_def)
  show ?case unfolding step "3.IH" by simp
qed

lemma extractDetails_lookup:
  "extractDetails files name =
     (case filter (\<lambda>fn. Name fn = name) (func_decls (all_decls files)) of
        [] \<Rightarrow> None
      | fs \<Rightarrow> Some \<lparr>detSignature = TypeText (last fs), detDefinition = DeclText (last fs)\<rparr>)"
proof -
  have "extractDetails files = decl_details Map.empty (all_decls files)"
    unfolding extractDetails_def all_decls_def decl_details_def by (rule foldl_nested)
  then show ?thesis by (simp add: decl_details_lookup)
qed

lemma dom_extractDetails: "dom (extractDetails files) = declared_names files"
proof (rule set_eqI)
  fix name
  have "filter (\<lambda>fn. Name fn = name) (func_decls (all_decls files)) = []
          \<longleftrightarrow> name \<notin> Name ` set (func_decls (all_decls files))"
    by (auto simp: filter_empty_conv)
  then show "name \<in> dom (extractDetails files) \<longleftrightarrow> name \<in> declared_names files"
    by (auto simp: extractDetails_lookup declared_names_eq dom_def split: list.splits)
qed

lemma foldl_upd_lookup:
  "distinct (map fst es) \<Longrightarrow>
   foldl (\<lambda>out (k, v). out(k \<mapsto> F k v)) m es name =
     (case map_of es name of None \<Rightarrow> m name | Some v \<Rightarrow> Some (F name v))"
proof (induction es arbitrary: m)
  case Nil
  then show ?case by simp
next
  case (Cons e es)
  obtain k v where e: "e = (k, v)" by (cases e)
  from Cons.prems e have d: "distinct (map fst es)" and fresh: "k \<notin> fst ` set es" by simp_all
  from fresh have "map_of es k = None" by (simp add: map_of_eq_None_iff)
  with Cons.IH [OF d, of "m(k \<mapsto> F k v)"] e show ?case
    by (auto split: option.splits)
qed

lemma map_of_range_map:
  "iteration_order m ks \<Longrightarrow> map_of (range_map m ks) k = m k"
proof -
  assume o: "iteration_order m ks"
  then have d: "distinct (map fst (range_map m ks))"
    by (simp add: distinct_range_map iteration_order_def)
  show ?thesis
  proof (cases "m k")
    case None
    with set_range_map_order [OF o] have "k \<notin> fst ` set (range_map m ks)" by force
    with None show ?thesis by (simp add: map_of_eq_None_iff)
  next
    case (Some v)
    with set_range_map_order [OF o] have "(k, v) \<in> set (range_map m ks)" by simp
    with d Some show ?thesis by simp
  qed
qed

lemma assemble_lookup:
  assumes "iteration_order details ord"
  shows "assemble details rawGraph ord name =
     (case details name of
        None \<Rightarrow> None
      | Some det \<Rightarrow> Some \<lparr>Callees = node_callees rawGraph name,
                          Signature = detSignature det, Definition = detDefinition det\<rparr>)"
proof -
  from assms have d: "distinct (map fst (range_map details ord))"
    by (simp add: distinct_range_map iteration_order_def)
  have "assemble details rawGraph ord name =
      foldl (\<lambda>out (k, det). out(k \<mapsto> \<lparr>Callees = node_callees rawGraph k,
               Signature = detSignature det, Definition = detDefinition det\<rparr>))
        Map.empty (range_map details ord) name"
    by (simp add: assemble_def node_callees_def)
  also have "\<dots> = (case map_of (range_map details ord) name of
        None \<Rightarrow> None
      | Some det \<Rightarrow> Some \<lparr>Callees = node_callees rawGraph name,
                          Signature = detSignature det, Definition = detDefinition det\<rparr>)"
    by (rule foldl_upd_lookup [OF d])
  finally show ?thesis by (simp add: map_of_range_map [OF assms])
qed

lemma node_callees_not_nil: "node_callees rawGraph name \<noteq> NilSlice"
  by (simp add: node_callees_def split: slice.splits)

lemma node_callees_absent: "rawGraph name = None \<Longrightarrow> node_callees rawGraph name = Slice []"
  by (simp add: node_callees_def index_raw_def)

lemma elems_node_callees: "elems (node_callees rawGraph name) = elems (index_raw rawGraph name)"
  by (simp add: node_callees_def split: slice.splits)

text \<open>
  C3. For every declaration index and every edge-source map, the assembled graph has
  exactly the declared names as keys. The node of a declared name carries the signature
  and definition of the index and a callee list that is never \<open>nil\<close>; for a caller absent
  from the edge-source map the list is the empty list.
\<close>

theorem assemble_complete:
  assumes "iteration_order details ord"
  shows "dom (assemble details rawGraph ord) = dom details
     \<and> (\<forall>name det. details name = Some det \<longrightarrow>
          (\<exists>n. assemble details rawGraph ord name = Some n
               \<and> Signature n = detSignature det \<and> Definition n = detDefinition det
               \<and> Callees n \<noteq> NilSlice
               \<and> (rawGraph name = None \<longrightarrow> Callees n = Slice [])))"
proof (intro conjI allI impI)
  show "dom (assemble details rawGraph ord) = dom details"
    by (auto simp: assemble_lookup [OF assms] dom_def split: option.splits)
next
  fix name det
  assume "details name = Some det"
  then show "\<exists>n. assemble details rawGraph ord name = Some n
               \<and> Signature n = detSignature det \<and> Definition n = detDefinition det
               \<and> Callees n \<noteq> NilSlice
               \<and> (rawGraph name = None \<longrightarrow> Callees n = Slice [])"
    by (simp add: assemble_lookup [OF assms] node_callees_not_nil node_callees_absent)
qed

theorem Save_then_Load_roundtrip_witness:
  "no_faults plain_engine \<and> scans_permute plain_engine \<and> closed_world abc_graph
   \<and> iteration_order abc_graph [''A'', ''B'', ''C''] \<and> iteration_order abc_graph [''C'', ''A'', ''B'']
   \<and> (\<exists>s' g'. SaveGraph plain_engine [''A'', ''B'', ''C''] [''C'', ''A'', ''B''] abc_graph old_store = (None, s')
         \<and> LoadGraph plain_engine s' = Inr g' \<and> same_content abc_graph g')"
proof -
  have nf: "no_faults plain_engine" by (simp add: no_faults_def plain_engine_def)
  have perm: "scans_permute plain_engine" by (simp add: scans_permute_def plain_engine_def)
  have closed: "journal old_store = None" by (simp add: old_store_def)
  have o1: "iteration_order abc_graph [''A'', ''B'', ''C'']"
    by (auto simp: iteration_order_def abc_graph_def)
  have o2: "iteration_order abc_graph [''C'', ''A'', ''B'']"
    by (auto simp: iteration_order_def abc_graph_def)
  have cw: "closed_world abc_graph"
    by (auto simp: closed_world_def abc_graph_def split: if_splits)
  from Save_then_Load_roundtrip [OF nf perm closed o1 o2 cw] nf perm cw o1 o2
  show ?thesis by blast
qed

theorem SaveGraph_atomic_witness:
  "fails edge_fault_engine (InsertCall ''A'' 0)
   \<and> InsertCall ''A'' 0 \<in> set (save_steps [''A'', ''B'', ''C''] [''C'', ''A'', ''B''] abc_graph)
   \<and> fst (SaveGraph edge_fault_engine [''A'', ''B'', ''C''] [''C'', ''A'', ''B''] abc_graph old_store) \<noteq> None
   \<and> snd (SaveGraph edge_fault_engine [''A'', ''B'', ''C''] [''C'', ''A'', ''B''] abc_graph old_store) = old_store"
proof -
  have f: "fails edge_fault_engine (InsertCall ''A'' 0)" by (simp add: edge_fault_engine_def)
  have m: "InsertCall ''A'' 0 \<in> set (save_steps [''A'', ''B'', ''C''] [''C'', ''A'', ''B''] abc_graph)"
    by (simp add: save_steps_def range_map_def abc_graph_def)
  from f m SaveGraph_atomic [of edge_fault_engine "[''A'', ''B'', ''C'']" "[''C'', ''A'', ''B'']"
      abc_graph old_store]
  show ?thesis by blast
qed

lemmas store_eval =
  SaveGraph_def tx_Begin_def tx_Commit_def tx_Rollback_def tx_Prepare_def committed_def
  exec_delete_calls_def exec_delete_functions_def exec_insertFn_def exec_insertCall_def
  range_map_def LoadGraph_def

theorem Load_after_Save_distinct_witness:
  "scans_permute plain_engine
   \<and> (\<exists>s' g'. SaveGraph plain_engine [''A'', ''B''] [''B'', ''A''] dup_graph old_store = (None, s')
        \<and> tbl_calls (db s') = [(''A'', ''B'')]
        \<and> LoadGraph plain_engine s' = Inr g'
        \<and> g' ''A'' = Some \<lparr>Callees = Slice [''B''], Signature = ''func()'',
                            Definition = ''func A() { B(); B() }''\<rparr>
        \<and> distinct (elems (Callees (the (g' ''A'')))))"
proof -
  have perm: "scans_permute plain_engine" by (simp add: scans_permute_def plain_engine_def)
  obtain s' where sv: "SaveGraph plain_engine [''A'', ''B''] [''B'', ''A''] dup_graph old_store = (None, s')"
    and rows: "tbl_calls (db s') = [(''A'', ''B'')]"
    and fr: "tbl_functions (db s') = [(''A'', ''func()'', ''func A() { B(); B() }''), (''B'', ''func()'', ''func B() {}'')]"
    and j: "journal s' = None"
    by (simp add: store_eval dup_graph_def old_store_def plain_engine_def)
  obtain g' where ld: "LoadGraph plain_engine s' = Inr g'"
    and a: "g' ''A'' = Some \<lparr>Callees = Slice [''B''], Signature = ''func()'',
                            Definition = ''func A() { B(); B() }''\<rparr>"
    by (simp add: LoadGraph_def committed_def rows fr j plain_engine_def)
  from Load_after_Save_distinct [OF perm sv ld a] have "distinct (elems (Callees (the (g' ''A''))))"
    by (simp add: a)
  with perm sv rows ld a show ?thesis by blast
qed

theorem assemble_complete_witness:
  "iteration_order abc_details [''B'', ''C'', ''A'']
   \<and> dom (assemble abc_details abc_raw [''B'', ''C'', ''A'']) = {''A'', ''B'', ''C''}
   \<and> (\<exists>n. assemble abc_details abc_raw [''B'', ''C'', ''A''] ''B'' = Some n
          \<and> Signature n = ''func()'' \<and> Definition n = ''func B() {}'' \<and> Callees n = Slice [])"
proof -
  have o: "iteration_order abc_details [''B'', ''C'', ''A'']"
    by (auto simp: iteration_order_def abc_details_def)
  have b: "abc_details ''B'' = Some \<lparr>detSignature = ''func()'', detDefinition = ''func B() {}''\<rparr>"
    and r: "abc_raw ''B'' = None"
    and d: "dom abc_details = {''A'', ''B'', ''C''}"
    by (auto simp: abc_details_def abc_raw_def)
  note ac = assemble_complete [OF o, of abc_raw]
  from ac d have dm: "dom (assemble abc_details abc_raw [''B'', ''C'', ''A'']) = {''A'', ''B'', ''C''}"
    by simp
  from ac b obtain n where "assemble abc_details abc_raw [''B'', ''C'', ''A''] ''B'' = Some n"
    "Signature n = ''func()''" "Definition n = ''func B() {}''"
    "abc_raw ''B'' = None \<longrightarrow> Callees n = Slice []"
    by fastforce
  with r o dm show ?thesis by blast
qed

section \<open>Properties of the lexical extractor\<close>

lemma set_add_set: "set (set_add x acc) = insert x (set acc)"
  by (auto simp: set_add_def)

lemma set_add_distinct: "distinct acc \<Longrightarrow> distinct (set_add x acc)"
  by (simp add: set_add_def)

lemma note_call_set: "set (note_call names f acc) = set acc \<union> (target f \<inter> names)"
  by (cases f) (auto simp: set_add_set)

lemma note_call_distinct: "distinct acc \<Longrightarrow> distinct (note_call names f acc)"
  by (cases f) (simp_all add: set_add_distinct)

lemma Inspect_set:
  "set (Inspect names n acc) = set acc \<union> (call_targets n \<inter> names)"
  "set (Inspect_list names ns acc) = set acc \<union> (call_targets_list ns \<inter> names)"
  by (induction names n acc and names ns acc rule: Inspect_Inspect_list.induct)
     (auto simp: note_call_set)

lemma Inspect_distinct:
  "distinct acc \<Longrightarrow> distinct (Inspect names n acc)"
  "distinct acc \<Longrightarrow> distinct (Inspect_list names ns acc)"
  by (induction names n acc and names ns acc rule: Inspect_Inspect_list.induct)
     (simp_all add: note_call_distinct)

lemma add_edges_lookup:
  "add_edges graph caller cs k =
     (if k = caller \<and> cs \<noteq> [] then Some (Slice (elems (index_raw graph caller) @ cs))
      else graph k)"
proof (induction cs arbitrary: graph)
  case Nil
  then show ?case by (simp add: add_edges_def)
next
  case (Cons c cs)
  have step: "add_edges graph caller (c # cs)
      = add_edges (graph(caller \<mapsto> append_slice (index_raw graph caller) c)) caller cs"
    by (simp add: add_edges_def)
  show ?case unfolding step Cons.IH by (simp add: index_raw_def)
qed

lemma add_edges_elems:
  "elems (index_raw (add_edges graph caller cs) k) =
     elems (index_raw graph k) @ (if k = caller then cs else [])"
  by (simp add: index_raw_def add_edges_lookup)

lemma range_permutes_set: "range_permutes rng \<Longrightarrow> set (rng fn xs) = set xs"
  by (metis range_permutes_def mset_eq_setD)

lemma range_permutes_distinct: "range_permutes rng \<Longrightarrow> distinct (rng fn xs) = distinct xs"
  by (metis range_permutes_def mset_eq_imp_distinct_iff)

text \<open>
  C5. The lexical extractor, for every function body and every known-name set: the edges
  one declaration contributes hold a callee exactly once when the callee is known and
  the body calls it (as a bare identifier or as the trailing name of a selector), however
  many call sites there are, and not at all otherwise; so a call to an unknown name gives
  no edge. The extractor is a total function: nothing is raised. These edges are what the
  declaration appends to its caller's list in the graph.
\<close>

theorem lexical_one_edge_per_callee:
  assumes "range_permutes rng"
  shows "count_list (rng fn (Inspect names body [])) callee
           = (if callee \<in> names \<and> callee \<in> call_targets body then 1 else 0)
     \<and> (Body fn = Some body \<longrightarrow>
          elems (index_raw (lex_decl names rng graph (Func fn)) (Name fn))
            = elems (index_raw graph (Name fn)) @ rng fn (Inspect names body []))"
proof
  let ?es = "rng fn (Inspect names body [])"
  have "distinct (Inspect names body [])" by (simp add: Inspect_distinct)
  with assms have d: "distinct ?es" by (simp add: range_permutes_distinct)
  have s: "set ?es = call_targets body \<inter> names"
    by (simp add: range_permutes_set [OF assms] Inspect_set)
  from d have "count (mset ?es) callee = (if callee \<in> set ?es then 1 else 0)"
    by (simp add: distinct_count_atmost_1)
  then show "count_list ?es callee = (if callee \<in> names \<and> callee \<in> call_targets body then 1 else 0)"
    unfolding s by (auto simp: count_mset)
next
  show "Body fn = Some body \<longrightarrow>
          elems (index_raw (lex_decl names rng graph (Func fn)) (Name fn))
            = elems (index_raw graph (Name fn)) @ rng fn (Inspect names body [])"
    by (simp add: lex_decl_def add_edges_elems)
qed

theorem lexical_one_edge_per_callee_witness:
  "range_permutes rev_range
   \<and> ''B'' \<in> call_targets body_A \<and> ''X'' \<in> call_targets body_A
   \<and> count_list (rev_range fn_A (Inspect {''A'', ''B'', ''C''} body_A [])) ''B'' = 1
   \<and> count_list (rev_range fn_A (Inspect {''A'', ''B'', ''C''} body_A [])) ''X'' = 0"
proof -
  have p: "range_permutes rev_range" by (simp add: range_permutes_def rev_range_def)
  have t: "''B'' \<in> call_targets body_A" "''X'' \<in> call_targets body_A"
    by (simp_all add: body_A_def)
  from lexical_one_edge_per_callee [OF p, where fn = fn_A and names = "{''A'', ''B'', ''C''}"
        and body = body_A and callee = "''B''" and graph = Map.empty]
    lexical_one_edge_per_callee [OF p, where fn = fn_A and names = "{''A'', ''B'', ''C''}"
        and body = body_A and callee = "''X''" and graph = Map.empty] p t
  show ?thesis by simp
qed

section \<open>Closed-world edges\<close>

lemma index_raw_within: "raw_within names graph \<Longrightarrow> set (elems (index_raw graph k)) \<subseteq> names"
  by (auto simp: raw_within_def index_raw_def split: option.splits)

lemma raw_within_append:
  "raw_within names graph \<Longrightarrow> callee \<in> names \<Longrightarrow>
     raw_within names (graph(caller \<mapsto> append_slice (index_raw graph caller) callee))"
  using index_raw_within [of names graph caller]
  by (auto simp: raw_within_def)

lemma raw_within_add_edges:
  "raw_within names graph \<Longrightarrow> set cs \<subseteq> names \<Longrightarrow> raw_within names (add_edges graph caller cs)"
proof (induction cs arbitrary: graph)
  case Nil
  then show ?case by (simp add: add_edges_def)
next
  case (Cons c cs)
  have step: "add_edges graph caller (c # cs)
      = add_edges (graph(caller \<mapsto> append_slice (index_raw graph caller) c)) caller cs"
    by (simp add: add_edges_def)
  from Cons.prems raw_within_append [of names graph c caller]
  have "raw_within names (graph(caller \<mapsto> append_slice (index_raw graph caller) c))"
    by simp
  with Cons.IH Cons.prems(2) show ?case unfolding step by simp
qed

lemma raw_within_lex_decl:
  assumes "range_permutes rng" and "raw_within names graph"
  shows "raw_within names (lex_decl names rng graph d)"
proof (cases d)
  case (Func fn)
  show ?thesis
  proof (cases "Body fn")
    case None
    with Func assms(2) show ?thesis by (simp add: lex_decl_def)
  next
    case (Some body)
    have "set (rng fn (Inspect names body [])) \<subseteq> names"
      by (simp add: range_permutes_set [OF assms(1)] Inspect_set)
    from raw_within_add_edges [OF assms(2) this] Func Some show ?thesis
      by (simp add: lex_decl_def)
  qed
next
  case GenDecl
  with assms(2) show ?thesis by (simp add: lex_decl_def)
qed

lemma raw_within_lex_decls:
  "range_permutes rng \<Longrightarrow> raw_within names graph \<Longrightarrow>
     raw_within names (foldl (lex_decl names rng) graph ds)"
  by (induction ds arbitrary: graph) (simp_all add: raw_within_lex_decl)

lemma extractCallGraph_flat:
  "extractCallGraph names rng files = foldl (lex_decl names rng) Map.empty (all_decls files)"
  unfolding extractCallGraph_def all_decls_def by (rule foldl_nested)

lemma raw_within_extractCallGraph:
  "range_permutes rng \<Longrightarrow> raw_within names (extractCallGraph names rng files)"
  unfolding extractCallGraph_flat
  by (rule raw_within_lex_decls) (simp_all add: raw_within_def)

lemma raw_within_record_outgoing:
  "raw_within names graph \<Longrightarrow> raw_within names (record_outgoing names caller calls seen graph)"
proof (induction calls arbitrary: seen graph)
  case Nil
  then show ?case by simp
next
  case (Cons call calls)
  show ?case
  proof (cases "itemName (To call) \<in> names \<and> itemName (To call) \<notin> seen")
    case True
    let ?g1 = "graph(caller \<mapsto> append_slice (index_raw graph caller) (itemName (To call)))"
    have step: "record_outgoing names caller (call # calls) seen graph
        = record_outgoing names caller calls (insert (itemName (To call)) seen) ?g1"
      using True by (simp add: Let_def)
    from True Cons.prems raw_within_append [of names graph "itemName (To call)" caller]
    have "raw_within names ?g1" by simp
    then show ?thesis unfolding step by (rule Cons.IH)
  next
    case False
    then have step: "record_outgoing names caller (call # calls) seen graph
        = record_outgoing names caller calls seen graph"
      by (auto simp: Let_def)
    show ?thesis unfolding step by (rule Cons.IH [OF Cons.prems])
  qed
qed

lemma lsp_decl_shape:
  "(\<exists>c'. lsp_decl r names (c, graph) d = (c', graph))
   \<or> (\<exists>fn outgoing c'. d = Func fn \<and> Body fn \<noteq> None
         \<and> lsp_decl r names (c, graph) d
             = (c', record_outgoing names (Name fn) outgoing {} graph))"
  by (auto simp: lsp_decl_def Let_def split: decl.splits prod.splits sum.splits list.splits)

lemma lsp_decl_cases:
  obtains c' where "lsp_decl r names (c, graph) d = (c', graph)"
  | fn outgoing c' where "d = Func fn" "Body fn \<noteq> None"
      "lsp_decl r names (c, graph) d = (c', record_outgoing names (Name fn) outgoing {} graph)"
  using lsp_decl_shape [of r names c graph d] by blast

lemma raw_within_lsp_decl:
  "raw_within names (snd st) \<Longrightarrow> raw_within names (snd (lsp_decl r names st d))"
proof -
  assume w: "raw_within names (snd st)"
  obtain c graph where st: "st = (c, graph)" by (cases st)
  show ?thesis
  proof (cases rule: lsp_decl_cases [of r names c graph d])
    case (1 c')
    with st w show ?thesis by simp
  next
    case (2 fn outgoing c')
    with st w show ?thesis by (simp add: raw_within_record_outgoing)
  qed
qed

lemma raw_within_lsp_decls:
  "raw_within names (snd st) \<Longrightarrow> raw_within names (snd (foldl (lsp_decl r names) st ds))"
  by (induction ds arbitrary: st) (simp_all add: raw_within_lsp_decl)

lemma extractGraphLSP_flat:
  "extractGraphLSP r c files names =
     (Inr (snd (foldl (lsp_decl r names) (c, Map.empty) (all_decls files))),
      fst (foldl (lsp_decl r names) (c, Map.empty) (all_decls files)))"
proof -
  have "foldl (\<lambda>st f. foldl (lsp_decl r names) st (Decls f)) (c, Map.empty) files
      = foldl (lsp_decl r names) (c, Map.empty) (all_decls files)"
    unfolding all_decls_def by (rule foldl_nested)
  then show ?thesis by (simp add: extractGraphLSP_def split: prod.splits)
qed

lemma raw_within_extractGraphLSP:
  "extractGraphLSP r c files names = (Inr graph, c') \<Longrightarrow> raw_within names graph"
  using raw_within_lsp_decls [of names "(c, Map.empty)" r "all_decls files"]
  by (auto simp: extractGraphLSP_flat raw_within_def)

lemma closed_world_assemble:
  assumes "iteration_order details ord" and "raw_within (dom details) rawGraph"
  shows "closed_world (assemble details rawGraph ord)"
  unfolding closed_world_def
proof (intro allI impI ballI)
  fix k n c
  assume n: "assemble details rawGraph ord k = Some n" and c: "c \<in> set (elems (Callees n))"
  from n have "Callees n = node_callees rawGraph k"
    by (auto simp: assemble_lookup [OF assms(1)] split: option.splits)
  with c index_raw_within [OF assms(2), of k] have "c \<in> dom details"
    by (auto simp: elems_node_callees)
  then show "assemble details rawGraph ord c \<noteq> None"
    by (auto simp: assemble_lookup [OF assms(1)])
qed

lemma BuildCallGraph_result:
  "BuildCallGraph r root files ord = (Inr g, c) \<Longrightarrow>
     \<exists>c1 c2 rawGraph. extractGraphLSP r c1 files (declared_names files) = (Inr rawGraph, c2)
        \<and> g = assemble (extractDetails files) rawGraph ord"
  by (auto simp: BuildCallGraph_def Let_def split: sum.splits prod.splits option.splits)

text \<open>
  C4. Closed-world edges. In every graph the pipeline of extraction and assembly
  produces, in the lexical mode and in the precision mode, every name in a callee list
  of a node is itself a key of the node map.
\<close>

theorem pipeline_closed_world:
  assumes "iteration_order (extractDetails files) ord"
  shows "(range_permutes rng \<longrightarrow> closed_world (buildCallGraph rng ord files))
     \<and> (\<forall>g c. BuildCallGraph r root files ord = (Inr g, c) \<longrightarrow> closed_world g)"
proof (intro conjI allI impI)
  assume "range_permutes rng"
  then have "raw_within (dom (extractDetails files))
      (extractCallGraph (declared_names files) rng files)"
    by (simp add: dom_extractDetails raw_within_extractCallGraph)
  from closed_world_assemble [OF assms this]
  show "closed_world (buildCallGraph rng ord files)" by (simp add: buildCallGraph_def)
next
  fix g c
  assume "BuildCallGraph r root files ord = (Inr g, c)"
  from BuildCallGraph_result [OF this] obtain c1 c2 rawGraph where
    ex: "extractGraphLSP r c1 files (declared_names files) = (Inr rawGraph, c2)"
    and g: "g = assemble (extractDetails files) rawGraph ord"
    by blast
  from raw_within_extractGraphLSP [OF ex]
  have "raw_within (dom (extractDetails files)) rawGraph" by (simp add: dom_extractDetails)
  from closed_world_assemble [OF assms this] g show "closed_world g" by simp
qed

lemmas corpus_eval =
  file_a_def fn_A_def fn_B_def fn_C_def body_A_def declared_names_def decl_names_def

lemma file_a_names: "declared_names [file_a] = {''A'', ''B'', ''C''}"
  by (auto simp: corpus_eval)

lemma file_a_order: "iteration_order (extractDetails [file_a]) [''C'', ''A'', ''B'']"
  by (auto simp: iteration_order_def dom_extractDetails file_a_names)

theorem pipeline_closed_world_witness:
  "iteration_order (extractDetails [file_a]) [''C'', ''A'', ''B''] \<and> range_permutes rev_range
   \<and> closed_world (buildCallGraph rev_range [''C'', ''A'', ''B''] [file_a])
   \<and> (\<exists>g c. BuildCallGraph demo_rpc ''/w'' [file_a] [''C'', ''A'', ''B''] = (Inr g, c)
          \<and> closed_world g)"
proof -
  have p: "range_permutes rev_range" by (simp add: range_permutes_def rev_range_def)
  obtain g c where b: "BuildCallGraph demo_rpc ''/w'' [file_a] [''C'', ''A'', ''B''] = (Inr g, c)"
    by (simp add: BuildCallGraph_def New_def OpenDocument_def extractGraphLSP_flat demo_rpc_def
        file_a_def Let_def)
  from pipeline_closed_world [OF file_a_order, of rev_range demo_rpc "''/w''"] p b file_a_order
  show ?thesis by blast
qed

section \<open>Failures of single queries in precision mode\<close>

text \<open>
  C6. Precision mode, for a function declaration with a body met during the pass over the
  declarations. If the prepare query fails, or returns no item, or the outgoing-calls
  query fails, the pass goes on with the remaining declarations from the same graph: the
  declaration contributes no edge. If the prepare query returns one item or more, the
  outgoing-calls query is made for the first item alone, and the edges recorded are those
  of its answer. The pass as a whole is the fold of these steps over all declarations and
  never returns an error.
\<close>

theorem lsp_query_failures_skip:
  assumes "Body fn \<noteq> None"
    and "PrepareCallHierarchy r c (Filename (NamePos fn))
           (word_of_int (Line (NamePos fn) - 1)) (word_of_int (Column (NamePos fn) - 1)) = (res, c1)"
  shows "(\<forall>err. res = Inl err \<longrightarrow>
            foldl (lsp_decl r names) (c, graph) (Func fn # ds)
              = foldl (lsp_decl r names) (c1, graph) ds)
     \<and> (res = Inr [] \<longrightarrow>
            foldl (lsp_decl r names) (c, graph) (Func fn # ds)
              = foldl (lsp_decl r names) (c1, graph) ds)
     \<and> (\<forall>root others. res = Inr (root # others) \<longrightarrow>
          (\<forall>err c2. OutgoingCalls r c1 root = (Inl err, c2) \<longrightarrow>
             foldl (lsp_decl r names) (c, graph) (Func fn # ds)
               = foldl (lsp_decl r names) (c2, graph) ds)
          \<and> (\<forall>outgoing c2. OutgoingCalls r c1 root = (Inr outgoing, c2) \<longrightarrow>
             foldl (lsp_decl r names) (c, graph) (Func fn # ds)
               = foldl (lsp_decl r names)
                   (c2, record_outgoing names (Name fn) outgoing {} graph) ds))
     \<and> extractGraphLSP r c files names =
          (Inr (snd (foldl (lsp_decl r names) (c, Map.empty) (all_decls files))),
           fst (foldl (lsp_decl r names) (c, Map.empty) (all_decls files)))"
proof -
  have step: "lsp_decl r names (c, graph) (Func fn) =
      (case res of
         Inl err \<Rightarrow> (c1, graph)
       | Inr [] \<Rightarrow> (c1, graph)
       | Inr (root # others) \<Rightarrow>
           (case OutgoingCalls r c1 root of
              (Inl err, c2) \<Rightarrow> (c2, graph)
            | (Inr outgoing, c2) \<Rightarrow> (c2, record_outgoing names (Name fn) outgoing {} graph)))"
    using assms by (auto simp: lsp_decl_def Let_def)
  show ?thesis
    unfolding foldl_Cons step by (auto simp: extractGraphLSP_flat)
qed

lemmas lsp_eval =
  lsp_decl_def PrepareCallHierarchy_def OutgoingCalls_def fileURI_def demo_rpc_def client0_def
  index_raw_def Let_def

theorem lsp_query_failures_skip_witness:
  "Body fn_B \<noteq> None
   \<and> PrepareCallHierarchy demo_rpc (client0\<lparr>session := 2\<rparr>) ''a.go'' 6 5
       = (Inl (RpcError ''timeout''), client0\<lparr>session := 3\<rparr>)
   \<and> foldl (lsp_decl demo_rpc {''A'', ''B'', ''C''})
        (client0\<lparr>session := 2\<rparr>, [''A'' \<mapsto> Slice [''B'']]) [Func fn_B, Func fn_C]
       = (client0\<lparr>session := 3\<rparr>, [''A'' \<mapsto> Slice [''B'']])
   \<and> extractGraphLSP demo_rpc client0 [file_a] {''A'', ''B'', ''C''}
       = (Inr [''A'' \<mapsto> Slice [''B'']], client0\<lparr>session := 3\<rparr>)"
proof -
  have body: "Body fn_B \<noteq> None" by (simp add: fn_B_def)
  have prep: "PrepareCallHierarchy demo_rpc (client0\<lparr>session := 2\<rparr>) (Filename (NamePos fn_B))
      (word_of_int (Line (NamePos fn_B) - 1)) (word_of_int (Column (NamePos fn_B) - 1))
        = (Inl (RpcError ''timeout''), client0\<lparr>session := 3\<rparr>)"
    by (simp add: PrepareCallHierarchy_def demo_rpc_def client0_def fn_B_def)
  have rest: "foldl (lsp_decl demo_rpc {''A'', ''B'', ''C''})
        (client0\<lparr>session := 3\<rparr>, [''A'' \<mapsto> Slice [''B'']]) [Func fn_C]
      = (client0\<lparr>session := 3\<rparr>, [''A'' \<mapsto> Slice [''B'']])"
    by (simp add: lsp_decl_def fn_C_def)
  have first: "foldl (lsp_decl demo_rpc {''A'', ''B'', ''C''}) (client0, Map.empty) [Func fn_A, GenDecl]
      = (client0\<lparr>session := 2\<rparr>, [''A'' \<mapsto> Slice [''B'']])"
    by (simp add: lsp_eval fn_A_def)
  note th = lsp_query_failures_skip [OF body prep, of "{''A'', ''B'', ''C''}"
      "[''A'' \<mapsto> Slice [''B'']]" "[Func fn_C]"]
  from th rest have skip: "foldl (lsp_decl demo_rpc {''A'', ''B'', ''C''})
        (client0\<lparr>session := 2\<rparr>, [''A'' \<mapsto> Slice [''B'']]) [Func fn_B, Func fn_C]
       = (client0\<lparr>session := 3\<rparr>, [''A'' \<mapsto> Slice [''B'']])"
    by simp
  have "foldl (lsp_decl demo_rpc {''A'', ''B'', ''C''}) (client0, Map.empty) (all_decls [file_a])
      = foldl (lsp_decl demo_rpc {''A'', ''B'', ''C''})
          (foldl (lsp_decl demo_rpc {''A'', ''B'', ''C''}) (client0, Map.empty) [Func fn_A, GenDecl])
          [Func fn_B, Func fn_C]"
    by (simp add: all_decls_def file_a_def)
  with first skip have "foldl (lsp_decl demo_rpc {''A'', ''B'', ''C''}) (client0, Map.empty)
      (all_decls [file_a]) = (client0\<lparr>session := 3\<rparr>, [''A'' \<mapsto> Slice [''B'']])"
    by simp
  then have "extractGraphLSP demo_rpc client0 [file_a] {''A'', ''B'', ''C''}
       = (Inr [''A'' \<mapsto> Slice [''B'']], client0\<lparr>session := 3\<rparr>)"
    by (simp add: extractGraphLSP_flat)
  with body prep skip show ?thesis by (simp add: fn_B_def)
qed

section \<open>Colliding names and declarations without a body\<close>



















end
